theory Spec2Isabelle
  imports Complex_Main "HOL-Library.Log_Nat" "HOL-Library.Monad_Syntax"
    "HOL-Library.Code_Target_Numeral"
begin

section \<open>JavaScript numbers\<close>

text \<open>
  A JavaScript \<^verbatim>\<open>number\<close> is an IEEE 754 binary64 value: NaN, an infinity, or a
  finite double, which is a rational \<open>m * 2 ^ e\<close> with \<open>\<bar>m\<bar> < 2 ^ 53\<close>,
  \<open>- 1074 \<le> e\<close> and magnitude below \<open>2 ^ 1024\<close>. The sign of zero is not
  modelled: the functions below never divide by zero and never observe the sign of a
  zero (the test \<^verbatim>\<open>ohms <= 0\<close> holds of both zeros).
\<close>

datatype jsnum = NaN | PosInf | NegInf | Fin rat

definition emin :: int where
  "emin = - 1074"

definition huge :: rat where
  "huge = 2 ^ 1024"

definition dyadic53 :: "rat \<Rightarrow> bool" where
  "dyadic53 q \<longleftrightarrow> (\<exists>m e. \<bar>m\<bar> < 2 ^ 53 \<and> emin \<le> e \<and> q = of_int m * 2 powi e)"

definition is_double :: "rat \<Rightarrow> bool" where
  "is_double q \<longleftrightarrow> \<bar>q\<bar> < huge \<and> dyadic53 q"

fun valid :: "jsnum \<Rightarrow> bool" where
  "valid (Fin q) = is_double q"
| "valid _ = True"

subsection \<open>Rounding to the nearest double, ties to even\<close>

definition rhe :: "rat \<Rightarrow> int" where
  "rhe x = (let f = \<lfloor>x\<rfloor>; d = x - of_int f
            in if d < 1 / 2 then f else if 1 / 2 < d then f + 1
               else if even f then f else f + 1)"

text \<open>
  The exponent of the unit in the last place of a magnitude \<open>q\<close>: with \<open>N\<close> the
  number of whole units of \<open>2 powi emin\<close> in \<open>q\<close>, the significand keeps 53 bits, and
  the exponent never goes below \<open>emin\<close>, that of the subnormal numbers. A magnitude that
  rounds to \<open>huge\<close> or more overflows to an infinity.
\<close>

definition expo :: "rat \<Rightarrow> int" where
  "expo q = max (bitlen \<lfloor>q * 2 powi (- emin)\<rfloor> - 53) 0 + emin"

definition round_mag :: "rat \<Rightarrow> rat" where
  "round_mag q = of_int (rhe (q / 2 powi expo q)) * 2 powi expo q"

definition round64 :: "rat \<Rightarrow> jsnum" where
  "round64 q =
     (let r = round_mag \<bar>q\<bar>
      in if huge \<le> r then (if q < 0 then NegInf else PosInf)
         else Fin (if q < 0 then - r else r))"

subsection \<open>Comparison and arithmetic\<close>

fun isFinite :: "jsnum \<Rightarrow> bool" where
  "isFinite (Fin _) = True"
| "isFinite _ = False"

fun js_lt :: "jsnum \<Rightarrow> jsnum \<Rightarrow> bool" where
  "js_lt NaN _ = False"
| "js_lt _ NaN = False"
| "js_lt (Fin a) (Fin b) = (a < b)"
| "js_lt PosInf _ = False"
| "js_lt _ PosInf = True"
| "js_lt _ NegInf = False"
| "js_lt NegInf _ = True"

definition js_le :: "jsnum \<Rightarrow> jsnum \<Rightarrow> bool" where
  "js_le a b \<longleftrightarrow> a \<noteq> NaN \<and> b \<noteq> NaN \<and> (a = b \<or> js_lt a b)"

definition js_gt :: "jsnum \<Rightarrow> jsnum \<Rightarrow> bool" where
  "js_gt a b = js_lt b a"

definition js_ge :: "jsnum \<Rightarrow> jsnum \<Rightarrow> bool" where
  "js_ge a b = js_le b a"

fun js_mul :: "jsnum \<Rightarrow> jsnum \<Rightarrow> jsnum" where
  "js_mul (Fin a) (Fin b) = round64 (a * b)"
| "js_mul NaN _ = NaN"
| "js_mul _ NaN = NaN"
| "js_mul x y =
     (if x = Fin 0 \<or> y = Fin 0 then NaN
      else if js_lt x (Fin 0) = js_lt y (Fin 0) then PosInf else NegInf)"

fun js_div :: "jsnum \<Rightarrow> jsnum \<Rightarrow> jsnum" where
  "js_div (Fin a) (Fin b) =
     (if b = 0 then (if a = 0 then NaN else if 0 < a then PosInf else NegInf)
      else round64 (a / b))"
| "js_div NaN _ = NaN"
| "js_div _ NaN = NaN"
| "js_div (Fin a) _ = Fin 0"
| "js_div x (Fin b) = (if js_lt x (Fin 0) = (b < 0) then PosInf else NegInf)"
| "js_div _ _ = NaN"

definition trunc :: "rat \<Rightarrow> int" where
  "trunc x = (if 0 \<le> x then \<lfloor>x\<rfloor> else \<lceil>x\<rceil>)"

text \<open>The remainder \<^verbatim>\<open>a % b\<close> has the sign of the dividend and is exact.\<close>

fun js_mod :: "jsnum \<Rightarrow> jsnum \<Rightarrow> jsnum" where
  "js_mod (Fin a) (Fin b) = (if b = 0 then NaN else Fin (a - b * of_int (trunc (a / b))))"
| "js_mod (Fin a) PosInf = Fin a"
| "js_mod (Fin a) NegInf = Fin a"
| "js_mod _ _ = NaN"

fun Math_floor :: "jsnum \<Rightarrow> jsnum" where
  "Math_floor (Fin q) = Fin (of_int \<lfloor>q\<rfloor>)"
| "Math_floor x = x"

text \<open>\<^verbatim>\<open>Math.round\<close> rounds a tie towards \<open>+\<infinity>\<close>.\<close>

fun Math_round :: "jsnum \<Rightarrow> jsnum" where
  "Math_round (Fin q) = Fin (of_int \<lfloor>q + 1 / 2\<rfloor>)"
| "Math_round x = x"

section \<open>JavaScript strings and arrays\<close>

text \<open>
  A string is its sequence of UTF-16 code units. \<open>ascii\<close> embeds an ASCII literal.
  Reading an array at a number that is not one of its indices gives \<^verbatim>\<open>undefined\<close>.
\<close>

type_synonym jsstring = "nat list"

definition ascii :: "string \<Rightarrow> jsstring" where
  "ascii s = map of_char s"

datatype jsval = Undefined | Str jsstring

fun js_index :: "jsstring list \<Rightarrow> jsnum \<Rightarrow> jsval" where
  "js_index xs (Fin q) =
     (if of_int \<lfloor>q\<rfloor> = q \<and> 0 \<le> q \<and> nat \<lfloor>q\<rfloor> < length xs then Str (xs ! nat \<lfloor>q\<rfloor>)
      else Undefined)"
| "js_index xs _ = Undefined"

section \<open>The resistor colour code\<close>

definition digitColor :: "jsstring list" where
  "digitColor = map ascii
     [''Black'', ''Brown'', ''Red'', ''Orange'', ''Yellow'',
      ''Green'', ''Blue'', ''Violet'', ''Grey'', ''White'']"

definition multiplierColor :: "jsstring list" where
  "multiplierColor = map ascii
     [''Black'', ''Brown'', ''Red'', ''Orange'', ''Yellow'',
      ''Green'', ''Blue'', ''Violet'', ''Grey'', ''White'']"

text \<open>The tolerance band \<^verbatim>\<open>"Gold (+-5%)"\<close>, its sign the code unit U+00B1.\<close>

definition gold :: jsstring where
  "gold = ascii ''Gold ('' @ [0xB1] @ ascii ''5%)''"

record bands =
  fourBand :: "jsval list"
  fiveBand :: "jsval list"

datatype 'a nullable = Null | Obj 'a

text \<open>
  The two kinds of loop of \<^verbatim>\<open>computeResistorColorCode\<close>, with the bound \<open>bnd\<close> the
  literal of the loop (100 and 10 for four bands, 1000 and 100 for five):
  \<^verbatim>\<open>while (m >= bnd) { m /= 10; p++; }\<close> and \<^verbatim>\<open>while (m < bnd) { m *= 10; p--; }\<close>.
  The counter is an integer that stays far below \<open>2 ^ 53\<close>, where \<^verbatim>\<open>p++\<close> and
  \<^verbatim>\<open>p--\<close> are exact. A loop that does not return has the value \<open>None\<close>.
\<close>

partial_function (option) scale_down :: "jsnum \<Rightarrow> jsnum \<Rightarrow> int \<Rightarrow> (jsnum \<times> int) option" where
  "scale_down bnd m p =
     (if js_ge m bnd then scale_down bnd (js_div m (Fin 10)) (p + 1) else Some (m, p))"

partial_function (option) scale_up :: "jsnum \<Rightarrow> jsnum \<Rightarrow> int \<Rightarrow> (jsnum \<times> int) option" where
  "scale_up bnd m p =
     (if js_lt m bnd then scale_up bnd (js_mul m (Fin 10)) (p - 1) else Some (m, p))"

declare scale_down.simps [code] scale_up.simps [code]

text \<open>
  The mantissa and the exponent after the two loops for four bands (bounds 100 and 10)
  and after those for five bands (bounds 1000 and 100).
\<close>

definition normalize4 :: "jsnum \<Rightarrow> (jsnum \<times> int) option" where
  "normalize4 ohms = do { (m4, p4) \<leftarrow> scale_down (Fin 100) ohms 0; scale_up (Fin 10) m4 p4 }"

definition normalize5 :: "jsnum \<Rightarrow> (jsnum \<times> int) option" where
  "normalize5 ohms = do { (m5, p5) \<leftarrow> scale_down (Fin 1000) ohms 0; scale_up (Fin 100) m5 p5 }"

definition bad_digit :: "jsnum \<Rightarrow> bool" where
  "bad_digit d \<longleftrightarrow> js_lt d (Fin 0) \<or> js_gt d (Fin 9)"

definition computeResistorColorCode :: "jsnum \<Rightarrow> bands nullable option" where
  "computeResistorColorCode ohms =
     (if \<not> isFinite ohms \<or> js_le ohms (Fin 0) then Some Null
      else do {
        (m4, p4) \<leftarrow> scale_down (Fin 100) ohms 0;
        (m4, p4) \<leftarrow> scale_up (Fin 10) m4 p4;
        let d1_4 = Math_floor (js_div m4 (Fin 10));
        let d2_4 = Math_floor (js_mod m4 (Fin 10));
        let mult4 = p4;
        if bad_digit d1_4 \<or> bad_digit d2_4 \<or> mult4 < 0 \<or> 9 < mult4 then Some Null
        else do {
          let four = [js_index digitColor d1_4, js_index digitColor d2_4,
                      js_index multiplierColor (Fin (of_int mult4)), Str gold];
          (m5, p5) \<leftarrow> scale_down (Fin 1000) ohms 0;
          (m5, p5) \<leftarrow> scale_up (Fin 100) m5 p5;
          let d1_5 = js_mod (Math_floor (js_div m5 (Fin 100))) (Fin 10);
          let d2_5 = js_mod (Math_floor (js_div m5 (Fin 10))) (Fin 10);
          let d3_5 = Math_floor (js_mod m5 (Fin 10));
          let mult5 = p5;
          if list_ex bad_digit [d1_5, d2_5, d3_5] \<or> mult5 < 0 \<or> 9 < mult5 then Some Null
          else Some (Obj \<lparr>fourBand = four,
                 fiveBand = [js_index digitColor d1_5, js_index digitColor d2_5, js_index digitColor d3_5,
                             js_index multiplierColor (Fin (of_int mult5)), Str gold]\<rparr>)
        }
      })"

section \<open>Reading a band sequence back\<close>

text \<open>
  The value a band sequence stands for, as the specification words it: the significant
  digits reassembled and multiplied by 10 raised to the multiplier exponent. The last
  band is the tolerance, the one before it the multiplier. A digit and an exponent are
  the positions of their colours in the table.
\<close>

fun index_of :: "'a list \<Rightarrow> 'a \<Rightarrow> nat option" where
  "index_of [] y = None"
| "index_of (x # xs) y = (if x = y then Some 0 else map_option Suc (index_of xs y))"

fun color_index :: "jsval \<Rightarrow> nat option" where
  "color_index (Str s) = index_of digitColor s"
| "color_index Undefined = None"

fun decode_digits :: "nat \<Rightarrow> jsval list \<Rightarrow> rat option" where
  "decode_digits acc [m, t] = map_option (\<lambda>k. of_nat acc * 10 ^ k) (color_index m)"
| "decode_digits acc (d # bs) =
     (case color_index d of None \<Rightarrow> None | Some k \<Rightarrow> decode_digits (10 * acc + k) bs)"
| "decode_digits acc [] = None"

definition decode_bands :: "jsval list \<Rightarrow> rat option" where
  "decode_bands bs = decode_digits 0 bs"

section \<open>Extracting resistance values from a question\<close>

text \<open>
  \<^verbatim>\<open>extractOhmValues\<close> scans the text with the regular expression
  \<^verbatim>\<open>/(\d+(?:\.\d+)?)\s*(k|K|M|mega|G|g)?/g\<close>. A match starts at a digit; every
  part after the first digit run is optional, so the greedy choice at each part is the
  match the engine returns and no backtracking takes place. \<^verbatim>\<open>\d\<close> is an ASCII
  digit and \<^verbatim>\<open>\s\<close> is white space or a line terminator.
\<close>

definition is_digit :: "nat \<Rightarrow> bool" where
  "is_digit c \<longleftrightarrow> 48 \<le> c \<and> c \<le> 57"

definition is_space :: "nat \<Rightarrow> bool" where
  "is_space c \<longleftrightarrow>
     c \<in> {9, 10, 11, 12, 13, 32, 160, 5760, 8232, 8233, 8239, 8287, 12288, 65279}
     \<or> (8192 \<le> c \<and> c \<le> 8202)"

text \<open>Group 1 at the head of \<open>s\<close>, and what follows it.\<close>

definition match_number :: "jsstring \<Rightarrow> (jsstring \<times> jsstring) option" where
  "match_number s =
     (let ds = takeWhile is_digit s; r = dropWhile is_digit s
      in if ds = [] then None
         else case r of
                [] \<Rightarrow> Some (ds, r)
              | c # r' \<Rightarrow>
                  if c = 46 \<and> takeWhile is_digit r' \<noteq> []
                  then Some (ds @ 46 # takeWhile is_digit r', dropWhile is_digit r')
                  else Some (ds, r))"

text \<open>Group 2 at the head of \<open>s\<close>: the first alternative that matches, if any.\<close>

definition suffixes :: "jsstring list" where
  "suffixes = map ascii [''k'', ''K'', ''M'', ''mega'', ''G'', ''g'']"

definition match_suffix :: "jsstring \<Rightarrow> jsstring option \<times> jsstring" where
  "match_suffix s =
     (case find (\<lambda>a. take (length a) s = a) suffixes of
        None \<Rightarrow> (None, s)
      | Some a \<Rightarrow> (Some a, drop (length a) s))"

lemma match_number_shorter:
  assumes "match_number (c # s) = Some (g1, r)"
  shows "length r \<le> length s"
proof -
  from assms have d: "is_digit c" by (auto simp: match_number_def Let_def split: if_splits)
  define r0 where "r0 = dropWhile is_digit s"
  have r0: "dropWhile is_digit (c # s) = r0" using d by (simp add: r0_def)
  have len: "length r0 \<le> length s" unfolding r0_def by (rule length_dropWhile_le)
  from assms have "r = r0 \<or> (\<exists>c' r'. r0 = c' # r' \<and> r = dropWhile is_digit r')"
    unfolding match_number_def Let_def r0 by (auto split: if_splits list.splits)
  then show ?thesis
  proof
    assume "r = r0" with len show ?thesis by simp
  next
    assume "\<exists>c' r'. r0 = c' # r' \<and> r = dropWhile is_digit r'"
    then obtain c' r' where "r0 = c' # r'" "r = dropWhile is_digit r'" by blast
    with len length_dropWhile_le [of is_digit r'] show ?thesis by simp
  qed
qed

lemma match_suffix_shorter: "match_suffix s = (g2, r) \<Longrightarrow> length r \<le> length s"
  by (auto simp: match_suffix_def split: option.splits)

text \<open>\<^verbatim>\<open>text.matchAll(re)\<close>: the groups \<^verbatim>\<open>m[1]\<close> and \<^verbatim>\<open>m[2]\<close> of every match, in order.\<close>

function matchAll :: "jsstring \<Rightarrow> (jsstring \<times> jsstring option) list" where
  "matchAll [] = []"
| "matchAll (c # s) =
     (case match_number (c # s) of
        None \<Rightarrow> matchAll s
      | Some (g1, r) \<Rightarrow>
          (case match_suffix (dropWhile is_space r) of (g2, r') \<Rightarrow> (g1, g2) # matchAll r'))"
  by pat_completeness auto
termination matchAll
proof (relation "measure length", goal_cases)
  case 1
  show ?case by simp
next
  case (2 c s)
  show ?case by simp
next
  case (3 c s x2 g1 r g2 r')
  then have "length r \<le> length s" "length r' \<le> length (dropWhile is_space r)"
    using match_number_shorter [of c s g1 r] match_suffix_shorter [of "dropWhile is_space r" g2 r']
    by simp_all
  with length_dropWhile_le [of is_space r] show ?case by simp
qed

text \<open>
  \<^verbatim>\<open>parseFloat\<close> on a string of the shape of group 1, digits with an optional
  fraction: the double nearest to the decimal value (an infinity when the digits
  overflow).
\<close>

definition digits_value :: "jsstring \<Rightarrow> nat" where
  "digits_value ds = foldl (\<lambda>a c. 10 * a + (c - 48)) 0 ds"

definition decimal_value :: "jsstring \<Rightarrow> rat" where
  "decimal_value s =
     (let ip = takeWhile is_digit s; fp = drop 1 (dropWhile is_digit s)
      in of_nat (digits_value ip) + of_nat (digits_value fp) / 10 ^ length fp)"

definition parseFloat :: "jsstring \<Rightarrow> jsnum" where
  "parseFloat s = round64 (decimal_value s)"

text \<open>\<^verbatim>\<open>toLowerCase\<close> on the letters a suffix can hold, the ASCII letters.\<close>

definition toLowerCase :: "jsstring \<Rightarrow> jsstring" where
  "toLowerCase s = map (\<lambda>c. if 65 \<le> c \<and> c \<le> 90 then c + 32 else c) s"

definition factor_of :: "jsstring \<Rightarrow> jsnum" where
  "factor_of suf =
     (if suf = ascii ''k'' then Fin 1000
      else if suf = ascii ''m'' \<or> suf = ascii ''mega'' then Fin 1000000
      else if suf = ascii ''g'' then Fin 1000000000
      else Fin 1)"

text \<open>
  The loop over the matches, with the array \<^verbatim>\<open>out\<close> and the set \<^verbatim>\<open>seen\<close>. A
  \<^verbatim>\<open>Set\<close> of numbers compares by value and holds NaN at most once, as equality of
  \<open>jsnum\<close> does.
\<close>

fun extract_loop ::
  "(jsstring \<times> jsstring option) list \<Rightarrow> jsnum list \<times> jsnum set \<Rightarrow> jsnum list \<times> jsnum set" where
  "extract_loop [] st = st"
| "extract_loop ((g1, g2) # ms) (out, seen) =
     (let n = parseFloat g1
      in if \<not> isFinite n then extract_loop ms (out, seen)
         else let suf = toLowerCase (case g2 of None \<Rightarrow> [] | Some s \<Rightarrow> s);
                  val = js_mul n (factor_of suf)
              in if val \<notin> seen then extract_loop ms (out @ [val], insert val seen)
                 else extract_loop ms (out, seen))"

definition extractOhmValues :: "jsstring \<Rightarrow> jsnum list" where
  "extractOhmValues text = fst (extract_loop (matchAll text) ([], {}))"

text \<open>
  What the specification says \<^verbatim>\<open>extractOhmValues\<close> returns: every matched token
  that parses to a finite number, scaled by its suffix (k and K by \<open>10 ^ 3\<close>, M and
  mega by \<open>10 ^ 6\<close>, G and g by \<open>10 ^ 9\<close>, none by 1), the first of equal values kept,
  in the order of appearance.
\<close>

definition spec_scale :: "jsstring option \<Rightarrow> rat" where
  "spec_scale g2 =
     (if g2 = Some (ascii ''k'') \<or> g2 = Some (ascii ''K'') then 10 ^ 3
      else if g2 = Some (ascii ''M'') \<or> g2 = Some (ascii ''mega'') then 10 ^ 6
      else if g2 = Some (ascii ''G'') \<or> g2 = Some (ascii ''g'') then 10 ^ 9
      else 1)"

definition keep_first :: "'a list \<Rightarrow> 'a list" where
  "keep_first xs = rev (remdups (rev xs))"

definition spec_extractOhmValues :: "jsstring \<Rightarrow> jsnum list" where
  "spec_extractOhmValues text =
     keep_first (map (\<lambda>(g1, g2). js_mul (parseFloat g1) (Fin (spec_scale g2)))
       (filter (\<lambda>(g1, g2). isFinite (parseFloat g1)) (matchAll text)))"

section \<open>The answer of the request handler\<close>

text \<open>
  The handler writes one item per value that has a colour code, with the template
  \<^verbatim>\<open>`- ${Math.round(val)} O:\n  - 4-band: ${mapping.fourBand.join(' - ')}\n  - 5-band: ${mapping.fiveBand.join(' - ')}`\<close>,
  where \<^verbatim>\<open>O\<close> stands for the code unit U+03A9 and each hyphen of \<^verbatim>\<open>4-band\<close> and
  \<^verbatim>\<open>5-band\<close> for U+2011.

  \<^verbatim>\<open>Number::toString\<close> prints an integer of magnitude below \<open>10 ^ 21\<close> as its
  decimal digits. The exponent notation of larger values and the digits of a fraction
  are outside the model: there the result is \<open>None\<close>.
\<close>

fun digits_of :: "nat \<Rightarrow> jsstring" where
  "digits_of n = (if n < 10 then [48 + n] else digits_of (n div 10) @ [48 + n mod 10])"

declare digits_of.simps [simp del]

definition Number_toString :: "jsnum \<Rightarrow> jsstring option" where
  "Number_toString x =
     (case x of
        NaN \<Rightarrow> Some (ascii ''NaN'')
      | PosInf \<Rightarrow> Some (ascii ''Infinity'')
      | NegInf \<Rightarrow> Some (ascii ''-Infinity'')
      | Fin q \<Rightarrow>
          if of_int \<lfloor>q\<rfloor> = q \<and> \<bar>q\<bar> < 10 ^ 21
          then Some ((if q < 0 then [45] else []) @ digits_of (nat \<bar>\<lfloor>q\<rfloor>\<bar>))
          else None)"

text \<open>\<^verbatim>\<open>Array.prototype.join\<close>: an undefined element is printed as the empty string.\<close>

fun element_string :: "jsval \<Rightarrow> jsstring" where
  "element_string (Str s) = s"
| "element_string Undefined = []"

fun join :: "jsstring \<Rightarrow> jsval list \<Rightarrow> jsstring" where
  "join sep [] = []"
| "join sep [x] = element_string x"
| "join sep (x # xs) = element_string x @ sep @ join sep xs"

definition format_part :: "jsnum \<Rightarrow> bands \<Rightarrow> jsstring option" where
  "format_part val mapping =
     map_option
       (\<lambda>n. ascii ''- '' @ n @ ascii '' '' @ [0x3A9] @ ascii '':'' @ [10]
          @ ascii ''  - 4'' @ [0x2011] @ ascii ''band: '' @ join (ascii '' - '') (fourBand mapping)
          @ [10]
          @ ascii ''  - 5'' @ [0x2011] @ ascii ''band: '' @ join (ascii '' - '') (fiveBand mapping))
       (Number_toString (Math_round val))"

text \<open>
  The loop \<^verbatim>\<open>for (const val of qVals)\<close> of the handler, which pushes an item for
  every value whose mapping is not \<^verbatim>\<open>null\<close>.
\<close>

fun color_parts :: "jsnum list \<Rightarrow> jsstring list option" where
  "color_parts [] = Some []"
| "color_parts (val # vals) =
     do {
       mapping \<leftarrow> computeResistorColorCode val;
       case mapping of
         Null \<Rightarrow> color_parts vals
       | Obj m \<Rightarrow> do {
           part \<leftarrow> format_part val m;
           parts \<leftarrow> color_parts vals;
           Some (part # parts)
         }
     }"

text \<open>
  The line the specification describes:
  \<^verbatim>\<open>"<rounded ohms> O: 4-band: <c1> - <c2> - <c3> - <c4>; 5-band: <c1> - ... - <c5>"\<close>,
  with plain hyphens.
\<close>

definition spec_line :: "jsstring \<Rightarrow> bands \<Rightarrow> jsstring" where
  "spec_line n mapping =
     n @ ascii '' '' @ [0x3A9] @ ascii '': 4-band: '' @ join (ascii '' - '') (fourBand mapping)
       @ ascii ''; 5-band: '' @ join (ascii '' - '') (fiveBand mapping)"

section \<open>Rounding to the nearest double\<close>

text \<open>
  \<open>rhe\<close> returns a nearest integer.
\<close>

lemma rhe_lower: "x - 1 / 2 \<le> of_int (rhe x)"
  unfolding rhe_def Let_def by (auto; linarith)

lemma rhe_upper: "of_int (rhe x) \<le> x + 1 / 2"
  unfolding rhe_def Let_def by (auto; linarith)

lemma rhe_of_int: "rhe (of_int n) = n"
  unfolding rhe_def Let_def by simp

lemma rhe_le: "x \<le> of_int n \<Longrightarrow> rhe x \<le> n"
proof (rule ccontr)
  assume a: "x \<le> of_int n" and "\<not> rhe x \<le> n"
  then have "n + 1 \<le> rhe x" by simp
  then have "(of_int n :: rat) + 1 \<le> of_int (rhe x)" by (metis of_int_le_iff of_int_add of_int_1)
  with rhe_upper [of x] a show False by simp
qed

lemma rhe_ge: "of_int n \<le> x \<Longrightarrow> n \<le> rhe x"
proof (rule ccontr)
  assume a: "of_int n \<le> x" and "\<not> n \<le> rhe x"
  then have "rhe x + 1 \<le> n" by simp
  then have "(of_int (rhe x) :: rat) + 1 \<le> of_int n" by (metis of_int_le_iff of_int_add of_int_1)
  with rhe_lower [of x] a show False by simp
qed

lemma rhe_nearest: "\<bar>of_int (rhe x) - x\<bar> \<le> \<bar>of_int n - x\<bar>"
proof (cases "of_int n \<le> x")
  case True
  then have "n \<le> rhe x" by (rule rhe_ge)
  then have le: "(of_int n :: rat) \<le> of_int (rhe x)" by simp
  show ?thesis
  proof (cases "of_int (rhe x) \<le> x")
    case True with le show ?thesis by simp
  next
    case False
    then have "n < rhe x" using True by auto
    then have "n + 1 \<le> rhe x" by simp
    then have "(of_int n :: rat) + 1 \<le> of_int (rhe x)" by (metis of_int_le_iff of_int_add of_int_1)
    with rhe_upper [of x] True False show ?thesis by simp
  qed
next
  case False
  then have "x \<le> of_int n" by simp
  then have "rhe x \<le> n" by (rule rhe_le)
  then have le: "(of_int (rhe x) :: rat) \<le> of_int n" by simp
  show ?thesis
  proof (cases "x \<le> of_int (rhe x)")
    case True with le show ?thesis by simp
  next
    case False
    then have "rhe x < n" using \<open>x \<le> of_int n\<close> by auto
    then have "rhe x + 1 \<le> n" by simp
    then have "(of_int (rhe x) :: rat) + 1 \<le> of_int n" by (metis of_int_le_iff of_int_add of_int_1)
    with rhe_lower [of x] \<open>x \<le> of_int n\<close> False show ?thesis by simp
  qed
qed

text \<open>
  The exponent \<open>expo q\<close> leaves \<open>q\<close> a significand below \<open>2 ^ 53\<close>, and one of at
  least \<open>2 ^ 52\<close> unless \<open>q\<close> is subnormal.
\<close>

lemma expo_ge: "emin \<le> expo q"
  by (simp add: expo_def)

lemma floor_lt_pow_bitlen: "0 \<le> (N::int) \<Longrightarrow> N + 1 \<le> 2 ^ nat (bitlen N)"
  using bitlen_bounds [of N] by (cases "N = 0") auto

lemma expo_upper:
  assumes "0 \<le> q"
  shows "q < 2 powi (expo q + 53)"
proof -
  define N where "N = \<lfloor>q * 2 powi (- emin)\<rfloor>"
  have N0: "0 \<le> N" using assms by (simp add: N_def)
  have "q * 2 powi (- emin) < of_int (N + 1)" unfolding N_def by linarith
  also have "\<dots> \<le> of_int (2 ^ nat (bitlen N))" using floor_lt_pow_bitlen [OF N0] by (simp only: of_int_le_iff)
  also have "\<dots> = 2 powi (bitlen N)" using bitlen_nonneg [of N] by (simp add: power_int_nonneg_exp)
  also have "\<dots> \<le> 2 powi (expo q - emin + 53)"
    by (rule power_int_increasing) (simp_all add: expo_def N_def)
  also have "\<dots> = 2 powi (expo q + 53) * 2 powi (- emin)"
    by (simp add: power_int_add [symmetric] algebra_simps)
  finally show ?thesis by simp
qed

lemma expo_lower:
  assumes "emin < expo q"
  shows "2 powi (expo q + 52) \<le> q"
proof -
  define N where "N = \<lfloor>q * 2 powi (- emin)\<rfloor>"
  from assms have b: "53 < bitlen N" and e: "expo q = bitlen N - 53 + emin"
    by (auto simp: expo_def N_def max_def split: if_splits)
  then have Npos: "0 < N" using bitlen_eq_zero_iff [of N] by (cases "N \<le> 0") auto
  have "(2::rat) powi (expo q + 52) * 2 powi (- emin) = 2 powi (bitlen N - 1)"
    by (simp add: e power_int_add [symmetric] algebra_simps)
  also have "\<dots> = of_int (2 ^ nat (bitlen N - 1))" using b by (simp add: power_int_nonneg_exp)
  also have "\<dots> \<le> of_int N" using bitlen_bounds [OF Npos] by (simp only: of_int_le_iff)
  also have "\<dots> \<le> q * 2 powi (- emin)" unfolding N_def by simp
  finally show ?thesis by simp
qed


lemma dyadic53I_le:
  assumes "\<bar>m\<bar> \<le> 2 ^ 53" "emin \<le> e"
  shows "dyadic53 (of_int m * 2 powi e)"
proof (cases "\<bar>m\<bar> < 2 ^ 53")
  case True
  with assms show ?thesis unfolding dyadic53_def by blast
next
  case False
  with assms have m: "m = 2 ^ 53 \<or> m = - (2 ^ 53)" by auto
  have "(of_int m :: rat) * 2 powi e = of_int (m div 2) * 2 powi (e + 1)"
    using m by (auto simp: power_int_add)
  moreover have "\<bar>m div 2\<bar> < 2 ^ 53" using m by auto
  moreover have "emin \<le> e + 1" using assms by simp
  ultimately show ?thesis unfolding dyadic53_def by metis
qed

text \<open>
  The rounded magnitude is a nearest double: no value \<open>m * 2 powi f\<close> with
  \<open>\<bar>m\<bar> \<le> 2 ^ 53\<close> and \<open>emin \<le> f\<close> is closer to \<open>q\<close>. Hence a double is rounded to
  itself, and rounding keeps a value on its side of every double.
\<close>

lemma round_mag_grid:
  "\<bar>round_mag q - q\<bar> \<le> \<bar>of_int n * 2 powi expo q - q\<bar>"
proof -
  define u :: rat where "u = 2 powi expo q"
  have u: "0 < u" by (simp add: u_def)
  define x where "x = q / u"
  have q: "q = x * u" using u by (simp add: x_def)
  have "\<bar>round_mag q - q\<bar> = \<bar>of_int (rhe x) - x\<bar> * u"
    using u unfolding round_mag_def u_def [symmetric] x_def [symmetric]
    by (subst q) (simp add: abs_mult left_diff_distrib [symmetric])
  also have "\<dots> \<le> \<bar>of_int n - x\<bar> * u"
    using u rhe_nearest [of x n] by (simp add: mult_right_mono)
  also have "\<dots> = \<bar>of_int n * u - q\<bar>"
    using u by (subst q) (simp add: abs_mult left_diff_distrib [symmetric])
  finally show ?thesis by (simp add: u_def)
qed

lemma round_mag_nearest:
  assumes "0 \<le> q" "\<bar>m\<bar> \<le> 2 ^ 53" "emin \<le> f"
  shows "\<bar>round_mag q - q\<bar> \<le> \<bar>of_int m * 2 powi f - q\<bar>"
proof (cases "expo q \<le> f")
  case True
  have "(2::rat) powi f = 2 powi (f - expo q) * 2 powi expo q"
    by (simp add: power_int_add [symmetric])
  also have "(2::rat) powi (f - expo q) = of_int (2 ^ nat (f - expo q))"
    using True by (simp add: power_int_nonneg_exp)
  finally have "(of_int m :: rat) * 2 powi f = of_int (m * 2 ^ nat (f - expo q)) * 2 powi expo q"
    by simp
  then show ?thesis using round_mag_grid [of q "m * 2 ^ nat (f - expo q)"] by (simp only:)
next
  case False
  then have lt: "f < expo q" by simp
  with assms have "emin < expo q" by simp
  then have low: "2 powi (expo q + 52) \<le> q" by (rule expo_lower)
  have "m \<le> 2 ^ 53" using assms(2) by simp
  then have "(of_int m :: rat) \<le> of_int (2 ^ 53)" by (simp only: of_int_le_iff)
  then have "(of_int m :: rat) * 2 powi f \<le> 2 ^ 53 * 2 powi f"
    by (simp add: mult_right_mono)
  also have "\<dots> = 2 powi (f + 53)" by (simp add: power_int_add)
  also have "\<dots> \<le> 2 powi (expo q + 52)" using lt by (intro power_int_increasing) simp_all
  finally have d: "(of_int m :: rat) * 2 powi f \<le> 2 powi (expo q + 52)" .
  have "\<bar>round_mag q - q\<bar> \<le> \<bar>of_int (2 ^ 52) * 2 powi expo q - q\<bar>"
    by (rule round_mag_grid)
  also have "of_int (2 ^ 52) * 2 powi expo q = (2::rat) powi (expo q + 52)"
    by (simp add: power_int_add)
  also have "\<bar>2 powi (expo q + 52) - q\<bar> \<le> \<bar>of_int m * 2 powi f - q\<bar>"
    using low d by simp
  finally show ?thesis .
qed

lemma round_mag_near:
  assumes "0 \<le> q" "dyadic53 d"
  shows "\<bar>round_mag q - q\<bar> \<le> \<bar>d - q\<bar>"
proof -
  from assms(2) obtain m e where "\<bar>m\<bar> < 2 ^ 53" "emin \<le> e" "d = of_int m * 2 powi e"
    unfolding dyadic53_def by blast
  then show ?thesis using round_mag_nearest [OF assms(1), of m e] by simp
qed

lemma round_mag_exact: "0 \<le> q \<Longrightarrow> dyadic53 q \<Longrightarrow> round_mag q = q"
  using round_mag_near [of q q] by simp

lemma round_mag_ge: "dyadic53 a \<Longrightarrow> 0 \<le> a \<Longrightarrow> a \<le> q \<Longrightarrow> a \<le> round_mag q"
  using round_mag_near [of q a] by (simp add: abs_if split: if_splits)

lemma round_mag_le: "dyadic53 b \<Longrightarrow> 0 \<le> q \<Longrightarrow> q \<le> b \<Longrightarrow> round_mag q \<le> b"
  using round_mag_near [of q b] by (simp add: abs_if split: if_splits)

lemma round_mag_less:
  "dyadic53 d \<Longrightarrow> 0 \<le> q \<Longrightarrow> d < t \<Longrightarrow> 2 * q < d + t \<Longrightarrow> round_mag q < t"
  using round_mag_near [of q d] by (simp add: abs_if split: if_splits)

lemma round_mag_nonneg: "0 \<le> q \<Longrightarrow> 0 \<le> round_mag q"
  unfolding round_mag_def using rhe_ge [of 0 "q / 2 powi expo q"] by simp

lemma round_mag_dyadic:
  assumes "0 \<le> q"
  shows "dyadic53 (round_mag q)"
proof -
  have "q < 2 powi (expo q + 53)" using assms by (rule expo_upper)
  also have "\<dots> = 2 ^ 53 * 2 powi expo q" by (simp add: power_int_add)
  finally have "q / 2 powi expo q < 2 ^ 53" by (simp add: pos_divide_less_eq)
  then have "q / 2 powi expo q \<le> of_int (2 ^ 53)" by simp
  then have "rhe (q / 2 powi expo q) \<le> 2 ^ 53" by (rule rhe_le)
  moreover have "0 \<le> rhe (q / 2 powi expo q)" using assms rhe_ge [of 0 "q / 2 powi expo q"] by simp
  ultimately have "\<bar>rhe (q / 2 powi expo q)\<bar> \<le> 2 ^ 53" by simp
  then show ?thesis unfolding round_mag_def by (rule dyadic53I_le) (rule expo_ge)
qed

section \<open>The loops return\<close>

lemma pow53_le_huge: "(2::rat) ^ 53 \<le> huge"
  unfolding huge_def by (rule power_increasing) simp_all

lemma huge_pos: "0 < huge"
  by (simp add: huge_def)

lemma emin_le_0: "emin \<le> 0"
  by (simp add: emin_def)

lemma dyadic53_of_int: "\<bar>n\<bar> < 2 ^ 53 \<Longrightarrow> dyadic53 (of_int n)"
  unfolding dyadic53_def using emin_le_0 by (intro exI [of _ n] exI [of _ 0]) simp

lemma is_double_of_int:
  assumes "\<bar>n\<bar> < 2 ^ 53"
  shows "is_double (of_int n)"
proof -
  have "\<bar>of_int n :: rat\<bar> = of_int \<bar>n\<bar>" by simp
  also have "\<dots> < of_int (2 ^ 53)" using assms by (simp only: of_int_less_iff)
  also have "\<dots> \<le> huge" using pow53_le_huge by simp
  finally show ?thesis using assms by (simp add: is_double_def dyadic53_of_int)
qed

lemma is_double_numeral: "(numeral k :: int) < 2 ^ 53 \<Longrightarrow> is_double (numeral k)"
  using is_double_of_int [of "numeral k"] by simp

lemma is_double_0: "is_double 0"
  using is_double_of_int [of 0] by simp

lemma dyadic53_0: "dyadic53 0"
  using dyadic53_of_int [of 0] by simp

lemma dyadic53_double: "dyadic53 (2 * x)" if "dyadic53 x"
proof -
  from that obtain m e where me: "\<bar>m\<bar> < 2 ^ 53" "emin \<le> e" "x = of_int m * 2 powi e"
    unfolding dyadic53_def by blast
  then have "2 * x = of_int m * 2 powi (e + 1)" by (simp add: power_int_add)
  with me show ?thesis unfolding dyadic53_def by (intro exI [of _ m] exI [of _ "e + 1"]) simp
qed

lemma round_mag_le_double: "0 \<le> q \<Longrightarrow> round_mag q \<le> 2 * q"
  using round_mag_near [of q 0] dyadic53_0 by (simp add: abs_if split: if_splits)

lemma round64_Fin:
  "0 \<le> q \<Longrightarrow> round_mag q < huge \<Longrightarrow> round64 q = Fin (round_mag q)"
  by (simp add: round64_def)

lemma is_double_round_mag: "0 \<le> q \<Longrightarrow> round_mag q < huge \<Longrightarrow> is_double (round_mag q)"
  by (simp add: is_double_def round_mag_dyadic round_mag_nonneg)

lemma round64_exact: "is_double q \<Longrightarrow> 0 \<le> q \<Longrightarrow> round64 q = Fin q"
  by (simp add: round64_def is_double_def round_mag_exact)

lemma is_double_less_huge: "is_double x \<Longrightarrow> x < huge"
  by (simp add: is_double_def abs_less_iff)

text \<open>One step of each loop.\<close>

lemma div10_step:
  assumes x: "is_double x" and a: "is_double a" "0 < a" "a \<le> x / 10"
  shows "\<exists>r. js_div (Fin x) (Fin 10) = Fin r \<and> is_double r \<and> a \<le> r \<and> r \<le> x / 5"
proof -
  have q: "0 \<le> x / 10" using a by simp
  have up: "round_mag (x / 10) \<le> x / 5" using round_mag_le_double [OF q] by simp
  have "x / 5 \<le> x" using a by simp
  also have "x < huge" using x by (rule is_double_less_huge)
  finally have fin: "round_mag (x / 10) < huge" using up by simp
  have "a \<le> round_mag (x / 10)" using a by (intro round_mag_ge) (simp_all add: is_double_def)
  with up fin q show ?thesis
    by (simp add: round64_Fin is_double_round_mag)
qed

lemma mul10_step:
  assumes x: "is_double x" "0 < x" and b: "is_double b" "10 * x \<le> b"
  shows "\<exists>r. js_mul (Fin x) (Fin 10) = Fin r \<and> is_double r \<and> 2 * x \<le> r \<and> r \<le> b"
proof -
  have q: "0 \<le> x * 10" using x by simp
  have up: "round_mag (x * 10) \<le> b" using b x by (intro round_mag_le) (simp_all add: is_double_def)
  have "b < huge" using b(1) by (rule is_double_less_huge)
  with up have fin: "round_mag (x * 10) < huge" by simp
  have "dyadic53 (2 * x)" using x by (intro dyadic53_double) (simp add: is_double_def)
  then have "2 * x \<le> round_mag (x * 10)" using x by (intro round_mag_ge) simp_all
  with up fin q show ?thesis
    by (simp add: round64_Fin is_double_round_mag)
qed

lemma js_ge_Fin [simp]: "js_ge (Fin a) (Fin b) \<longleftrightarrow> b \<le> a"
  by (auto simp: js_ge_def js_le_def)

lemma js_le_Fin [simp]: "js_le (Fin a) (Fin b) \<longleftrightarrow> a \<le> b"
  by (auto simp: js_le_def)

lemma js_gt_Fin [simp]: "js_gt (Fin a) (Fin b) \<longleftrightarrow> b < a"
  by (simp add: js_gt_def)

text \<open>
  Each loop returns after at most \<open>n\<close> iterations, for every \<open>n\<close> large enough: a
  division by 10 gives at most a fifth of a value, a multiplication by 10 at least its
  double.
\<close>

lemma scale_down_bounded:
  assumes b: "is_double (b / 10)" "0 < b"
  shows "is_double x \<Longrightarrow> 0 < x \<Longrightarrow> x < b * 5 ^ n \<Longrightarrow>
    \<exists>m p'. scale_down (Fin b) (Fin x) p = Some (Fin m, p') \<and> is_double m \<and> 0 < m \<and> m < b
      \<and> p' \<le> p + int n \<and> (p' = p \<and> m = x \<or> p < p' \<and> b / 10 \<le> m)"
proof (induction n arbitrary: x p)
  case 0
  then show ?case by (subst scale_down.simps) simp
next
  case (Suc n)
  show ?case
  proof (cases "x < b")
    case True
    with Suc.prems show ?thesis by (subst scale_down.simps) simp
  next
    case False
    then have "b / 10 \<le> x / 10" by simp
    with div10_step [OF Suc.prems(1) b(1), of ] b(2)
    obtain r where r: "js_div (Fin x) (Fin 10) = Fin r" "is_double r" "b / 10 \<le> r" "r \<le> x / 5"
      by auto
    have "r < b * 5 ^ n" using r(4) Suc.prems(3) by simp
    moreover have "0 < r" using r(3) b(2) by simp
    ultimately obtain m p' where
      "scale_down (Fin b) (Fin r) (p + 1) = Some (Fin m, p')" "is_double m" "0 < m" "m < b"
      "p' \<le> p + 1 + int n" "p' = p + 1 \<and> m = r \<or> p + 1 < p' \<and> b / 10 \<le> m"
      using Suc.IH [OF r(2), of "p + 1"] by blast
    with False r show ?thesis by (subst scale_down.simps) auto
  qed
qed

lemma scale_up_bounded:
  assumes b: "is_double (10 * b)" "0 < b"
  shows "is_double x \<Longrightarrow> 0 < x \<Longrightarrow> b \<le> x * 2 ^ n \<Longrightarrow>
    \<exists>m p'. scale_up (Fin b) (Fin x) p = Some (Fin m, p') \<and> is_double m \<and> b \<le> m
      \<and> p - int n \<le> p' \<and> (p' = p \<and> m = x \<or> p' < p \<and> m \<le> 10 * b)"
proof (induction n arbitrary: x p)
  case 0
  then show ?case by (subst scale_up.simps) simp
next
  case (Suc n)
  show ?case
  proof (cases "x < b")
    case False
    with Suc.prems show ?thesis by (subst scale_up.simps) simp
  next
    case True
    then have "10 * x \<le> 10 * b" by simp
    with mul10_step [OF Suc.prems(1,2) b(1)]
    obtain r where r: "js_mul (Fin x) (Fin 10) = Fin r" "is_double r" "2 * x \<le> r" "r \<le> 10 * b"
      by auto
    have "b \<le> (2 * x) * 2 ^ n" using Suc.prems(3) by (simp add: mult_ac)
    also have "\<dots> \<le> r * 2 ^ n" using r(3) by (intro mult_right_mono) simp_all
    finally have "b \<le> r * 2 ^ n" .
    moreover have "0 < r" using r(3) Suc.prems(2) by simp
    ultimately obtain m p' where
      "scale_up (Fin b) (Fin r) (p - 1) = Some (Fin m, p')" "is_double m" "b \<le> m"
      "p - 1 - int n \<le> p'" "p' = p - 1 \<and> m = r \<or> p' < p - 1 \<and> m \<le> 10 * b"
      using Suc.IH [OF r(2), of "p - 1"] by blast
    with True r show ?thesis by (subst scale_up.simps) auto
  qed
qed

lemma ex_pow5: "0 < b \<Longrightarrow> \<exists>n. (x::rat) < b * 5 ^ n"
proof -
  assume b: "0 < b"
  obtain n :: nat where n: "x / b < of_nat n" using reals_Archimedean2 by blast
  have "x / b < 2 ^ n" by (rule less_trans [OF n of_nat_less_two_power])
  also have "\<dots> \<le> 5 ^ n" by (rule power_mono) simp_all
  finally have "x / b < 5 ^ n" .
  then show ?thesis using b by (auto simp: pos_divide_less_eq mult.commute)
qed

lemma ex_pow2: "0 < x \<Longrightarrow> \<exists>n. (b::rat) \<le> x * 2 ^ n"
proof -
  assume x: "0 < x"
  obtain n :: nat where n: "b / x < of_nat n" using reals_Archimedean2 by blast
  have "b / x < 2 ^ n" by (rule less_trans [OF n of_nat_less_two_power])
  then show ?thesis using x by (auto simp: pos_divide_less_eq mult.commute intro: less_imp_le)
qed

lemma scale_down_returns:
  assumes "is_double (b / 10)" "0 < b" "is_double x" "0 < x"
  shows "\<exists>m p'. scale_down (Fin b) (Fin x) p = Some (Fin m, p') \<and> is_double m \<and> 0 < m \<and> m < b
      \<and> (p' = p \<and> m = x \<or> p < p' \<and> b / 10 \<le> m)"
proof -
  from ex_pow5 [OF assms(2)] obtain n where "x < b * 5 ^ n" ..
  from scale_down_bounded [OF assms this, of p] show ?thesis by blast
qed

lemma scale_up_returns:
  assumes "is_double (10 * b)" "0 < b" "is_double x" "0 < x"
  shows "\<exists>m p'. scale_up (Fin b) (Fin x) p = Some (Fin m, p') \<and> is_double m \<and> b \<le> m
      \<and> (p' = p \<and> m = x \<or> p' < p \<and> m \<le> 10 * b)"
proof -
  from ex_pow2 [OF assms(4)] obtain n where "b \<le> x * 2 ^ n" ..
  from scale_up_bounded [OF assms this, of p] show ?thesis by blast
qed

lemma is_double_nums:
  "is_double 10" "is_double 100" "is_double 1000"
  by (rule is_double_numeral; simp)+

lemma both_loops:
  assumes b: "is_double (b / 10)" "0 < b" "is_double (10 * c)" "0 < c" and x: "is_double x" "0 < x"
  shows "\<exists>m p m' p'. scale_down (Fin b) (Fin x) 0 = Some (Fin m, p)
     \<and> scale_up (Fin c) (Fin m) p = Some (Fin m', p') \<and> is_double m' \<and> 0 < m'"
proof -
  from scale_down_returns [OF b(1,2) x, of 0] obtain m p where
    m: "scale_down (Fin b) (Fin x) 0 = Some (Fin m, p)" "is_double m" "0 < m" by blast
  from scale_up_returns [OF b(3,4) m(2,3), of p] obtain m' p' where
    "scale_up (Fin c) (Fin m) p = Some (Fin m', p')" "is_double m'" "c \<le> m'" by blast
  with m b(4) have "scale_down (Fin b) (Fin x) 0 = Some (Fin m, p)
     \<and> scale_up (Fin c) (Fin m) p = Some (Fin m', p') \<and> is_double m' \<and> 0 < m'"
    by simp
  then show ?thesis by - (rule exI)+
qed

lemma colorCode_returns:
  assumes "is_double x" "0 < x"
  shows "\<exists>r. computeResistorColorCode (Fin x) = Some r"
proof -
  from both_loops [of 100 10 x] assms is_double_nums obtain m4 p4 m4' p4' where
    l4: "scale_down (Fin 100) (Fin x) 0 = Some (Fin m4, p4)"
        "scale_up (Fin 10) (Fin m4) p4 = Some (Fin m4', p4')" by auto
  from both_loops [of 1000 100 x] assms is_double_nums obtain m5 p5 m5' p5' where
    l5: "scale_down (Fin 1000) (Fin x) 0 = Some (Fin m5, p5)"
        "scale_up (Fin 100) (Fin m5) p5 = Some (Fin m5', p5')" by auto
  show ?thesis
    unfolding computeResistorColorCode_def using assms(2)
    by (simp add: l4 l5 Let_def del: js_div.simps js_mod.simps Math_floor.simps)
qed

lemma div10_decreases:
  assumes "is_double x" "100 \<le> x"
  shows "\<exists>r. js_div (Fin x) (Fin 10) = Fin r \<and> r < x"
proof -
  from div10_step [OF assms(1) is_double_nums(1), of] assms(2)
  obtain r where "js_div (Fin x) (Fin 10) = Fin r" "r \<le> x / 5" by auto
  with assms(2) show ?thesis by auto
qed

lemma mul10_increases:
  assumes "is_double x" "0 < x" "x < 100"
  shows "\<exists>r. js_mul (Fin x) (Fin 10) = Fin r \<and> x < r"
proof -
  from mul10_step [OF assms(1,2) is_double_nums(3)] assms(3)
  obtain r where "js_mul (Fin x) (Fin 10) = Fin r" "2 * x \<le> r" by auto
  with assms(2) show ?thesis by auto
qed

section \<open>Evaluation at literals\<close>

lemma round64_numeral: "(numeral k :: int) < 2 ^ 53 \<Longrightarrow> round64 (numeral k) = Fin (numeral k)"
  using round64_exact [of "numeral k"] is_double_numeral [of k] by simp

lemma emin_le_m10: "emin \<le> - 10"
  by (simp add: emin_def)

lemma floor_round64:
  assumes "0 \<le> q" "q < 2 ^ 40" "q + 1 / 1024 \<le> of_int \<lfloor>q\<rfloor> + 1"
  shows "Math_floor (round64 q) = Fin (of_int \<lfloor>q\<rfloor>)"
proof -
  define n where "n = \<lfloor>q\<rfloor>"
  have n0: "0 \<le> n" using assms(1) by (simp add: n_def)
  have "of_int n \<le> q" by (simp add: n_def)
  also have "q < of_int (2 ^ 40)" using assms(2) by simp
  finally have n40: "n < 2 ^ 40" by (simp only: of_int_less_iff)
  define d :: rat where "d = of_int ((n + 1) * 1024 - 1) * 2 powi (- 10)"
  have d: "d = of_int n + 1 - 1 / 1024" by (simp add: d_def power_int_minus field_simps)
  have "dyadic53 d" unfolding d_def using n0 n40 emin_le_m10
    by (intro dyadic53I_le) auto
  moreover have "d < of_int n + 1" by (simp add: d)
  moreover have "2 * q < d + (of_int n + 1)" using assms(3) by (simp add: d n_def)
  ultimately have up: "round_mag q < of_int n + 1" using assms(1) by (intro round_mag_less)
  have "n + 1 \<le> 2 ^ 53" using n40 by simp
  then have "(of_int (n + 1) :: rat) \<le> of_int (2 ^ 53)" by (simp only: of_int_le_iff)
  then have "of_int n + 1 \<le> (2::rat) ^ 53" by simp
  with up pow53_le_huge have fin: "round_mag q < huge" by simp
  have "dyadic53 (of_int n)" using n0 n40 by (intro dyadic53_of_int) simp
  then have "of_int n \<le> round_mag q" using n0 by (intro round_mag_ge) (simp_all add: n_def)
  with up have "\<lfloor>round_mag q\<rfloor> = n" by (simp add: floor_unique)
  with fin assms(1) show ?thesis by (simp add: round64_Fin n_def)
qed

lemma floor_rat_divide_numeral [simp]:
  "\<lfloor>numeral a / numeral b :: rat\<rfloor> = numeral a div numeral b"
  by (metis floor_divide_of_int_eq of_int_numeral)

lemma floor_rat_one_divide_numeral [simp]:
  "\<lfloor>1 / numeral b :: rat\<rfloor> = 1 div numeral b"
  by (metis floor_divide_of_int_eq of_int_1 of_int_numeral)

section \<open>How often the loops run\<close>

text \<open>
  A double below \<open>N * 2 powi e\<close>, where \<open>N\<close> is a full significand, is at most
  \<open>(N - 1) * 2 powi e\<close>. So a tenth of a double below \<open>T\<close> lies nearer to the double
  just below \<open>T / 10\<close> than to \<open>T / 10\<close>, whenever the unit in the last place of \<open>T\<close>
  is at least 8 times that of \<open>T / 10\<close>: the rounded quotient stays below \<open>T / 10\<close>.
  This holds of every power of ten from \<open>10 ^ 2\<close> to \<open>10 ^ 11\<close>.
\<close>

lemma double_pred:
  assumes x: "is_double x" and lt: "x < of_int N * 2 powi e" and N: "2 ^ 52 < N"
  shows "x \<le> of_int (N - 1) * 2 powi e"
proof -
  from x obtain m f where mf: "\<bar>m\<bar> < 2 ^ 53" "emin \<le> f" "x = of_int m * 2 powi f"
    unfolding is_double_def dyadic53_def by blast
  show ?thesis
  proof (cases "e \<le> f")
    case True
    have "(2::rat) powi f = 2 powi (f - e) * 2 powi e"
      by (simp add: power_int_add [symmetric])
    also have "(2::rat) powi (f - e) = of_int (2 ^ nat (f - e))"
      using True by (simp add: power_int_nonneg_exp)
    finally have xe: "x = of_int (m * 2 ^ nat (f - e)) * 2 powi e"
      using mf(3) by simp
    with lt have "(of_int (m * 2 ^ nat (f - e)) :: rat) < of_int N" by simp
    then have "m * 2 ^ nat (f - e) < N" by (simp only: of_int_less_iff)
    then have "m * 2 ^ nat (f - e) \<le> N - 1" by simp
    then have "(of_int (m * 2 ^ nat (f - e)) :: rat) \<le> of_int (N - 1)" by (simp only: of_int_le_iff)
    then show ?thesis by (subst xe) (simp only: mult_right_mono zero_le_power_int zero_le_numeral)
  next
    case False
    then have fe: "f + 1 \<le> e" by simp
    have "m \<le> 2 ^ 53" using mf(1) by simp
    then have "(of_int m :: rat) \<le> of_int (2 ^ 53)" by (simp only: of_int_le_iff)
    then have "x \<le> 2 ^ 53 * 2 powi f" using mf(3) by (simp add: mult_right_mono)
    also have "\<dots> = 2 ^ 52 * 2 powi (f + 1)" by (simp add: power_int_add)
    also have "\<dots> \<le> 2 ^ 52 * 2 powi e"
      using fe by (intro mult_left_mono power_int_increasing) simp_all
    also have "\<dots> \<le> of_int (N - 1) * 2 powi e"
    proof -
      have "2 ^ 52 \<le> N - 1" using N by simp
      then have "(of_int (2 ^ 52) :: rat) \<le> of_int (N - 1)" by (simp only: of_int_le_iff)
      then show ?thesis by (simp add: mult_right_mono)
    qed
    finally show ?thesis .
  qed
qed

lemma div10_strict:
  assumes x: "is_double x" "0 \<le> x" "x < T"
    and T: "T = of_int N * 2 powi e" "2 ^ 52 < N"
    and T': "T = 10 * (of_int N' * 2 powi e')" "0 < N'" "N' \<le> 2 ^ 53" "emin \<le> e'" "e' + 3 \<le> e"
  shows "round_mag (x / 10) < T / 10"
proof -
  have xle: "x \<le> of_int (N - 1) * 2 powi e"
    using x(1) x(3) T(2) unfolding T(1) by (rule double_pred)
  then have xle': "x \<le> T - 2 powi e" by (simp add: T(1) left_diff_distrib)
  define d :: rat where "d = of_int (N' - 1) * 2 powi e'"
  have dT: "d = T / 10 - 2 powi e'" by (simp add: d_def T'(1) left_diff_distrib)
  have "dyadic53 d" unfolding d_def using T' by (intro dyadic53I_le) auto
  moreover have "d < T / 10" by (simp add: dT)
  moreover have "2 * (x / 10) < d + T / 10"
  proof -
    have "(2::rat) powi e' * 8 = 2 powi (e' + 3)" by (simp add: power_int_add)
    also have "\<dots> \<le> 2 powi e" using T'(5) by (intro power_int_increasing) simp_all
    finally have "5 * 2 powi e' < (2::rat) powi e"
      using zero_less_power_int [of "2::rat" e'] by linarith
    with xle' show ?thesis by (simp add: dT)
  qed
  ultimately show ?thesis using x(2) by (intro round_mag_less) simp_all
qed

lemma div10_lt_100:
  assumes "is_double x" "0 \<le> x" "x < 100"
  shows "round_mag (x / 10) < 10"
proof -
  have "round_mag (x / 10) < 100 / 10"
    using assms
    by (rule div10_strict [where N = "100 * 2 ^ 46" and e = "- 46" and N' = "10 * 2 ^ 49" and e' = "- 49"])
      (simp_all add: power_int_minus emin_def)
  then show ?thesis by simp
qed

lemma div10_below:
  assumes "is_double x" "0 \<le> x" "x < 10 ^ Suc k" "1 \<le> k" "k \<le> 10"
  shows "round_mag (x / 10) < 10 ^ k"
proof -
  from assms(4,5) consider "k = 1" | "k = 2" | "k = 3" | "k = 4" | "k = 5" | "k = 6" | "k = 7" | "k = 8" | "k = 9" | "k = 10"
    by atomize_elim arith
  then have "round_mag (x / 10) < 10 ^ Suc k / 10"
  proof cases
    case 1
    from assms(1,2) assms(3) [unfolded 1] show ?thesis unfolding 1
      by (rule div10_strict [where N = "10 ^ 2 * 2 ^ 46" and e = "- 46"
            and N' = "10 ^ 1 * 2 ^ 49" and e' = "- 49"])
        (simp_all add: power_int_minus emin_def)
  next
    case 2
    from assms(1,2) assms(3) [unfolded 2] show ?thesis unfolding 2
      by (rule div10_strict [where N = "10 ^ 3 * 2 ^ 43" and e = "- 43"
            and N' = "10 ^ 2 * 2 ^ 46" and e' = "- 46"])
        (simp_all add: power_int_minus emin_def)
  next
    case 3
    from assms(1,2) assms(3) [unfolded 3] show ?thesis unfolding 3
      by (rule div10_strict [where N = "10 ^ 4 * 2 ^ 39" and e = "- 39"
            and N' = "10 ^ 3 * 2 ^ 43" and e' = "- 43"])
        (simp_all add: power_int_minus emin_def)
  next
    case 4
    from assms(1,2) assms(3) [unfolded 4] show ?thesis unfolding 4
      by (rule div10_strict [where N = "10 ^ 5 * 2 ^ 36" and e = "- 36"
            and N' = "10 ^ 4 * 2 ^ 39" and e' = "- 39"])
        (simp_all add: power_int_minus emin_def)
  next
    case 5
    from assms(1,2) assms(3) [unfolded 5] show ?thesis unfolding 5
      by (rule div10_strict [where N = "10 ^ 6 * 2 ^ 33" and e = "- 33"
            and N' = "10 ^ 5 * 2 ^ 36" and e' = "- 36"])
        (simp_all add: power_int_minus emin_def)
  next
    case 6
    from assms(1,2) assms(3) [unfolded 6] show ?thesis unfolding 6
      by (rule div10_strict [where N = "10 ^ 7 * 2 ^ 29" and e = "- 29"
            and N' = "10 ^ 6 * 2 ^ 33" and e' = "- 33"])
        (simp_all add: power_int_minus emin_def)
  next
    case 7
    from assms(1,2) assms(3) [unfolded 7] show ?thesis unfolding 7
      by (rule div10_strict [where N = "10 ^ 8 * 2 ^ 26" and e = "- 26"
            and N' = "10 ^ 7 * 2 ^ 29" and e' = "- 29"])
        (simp_all add: power_int_minus emin_def)
  next
    case 8
    from assms(1,2) assms(3) [unfolded 8] show ?thesis unfolding 8
      by (rule div10_strict [where N = "10 ^ 9 * 2 ^ 23" and e = "- 23"
            and N' = "10 ^ 8 * 2 ^ 26" and e' = "- 26"])
        (simp_all add: power_int_minus emin_def)
  next
    case 9
    from assms(1,2) assms(3) [unfolded 9] show ?thesis unfolding 9
      by (rule div10_strict [where N = "10 ^ 10 * 2 ^ 19" and e = "- 19"
            and N' = "10 ^ 9 * 2 ^ 23" and e' = "- 23"])
        (simp_all add: power_int_minus emin_def)
  next
    case 10
    from assms(1,2) assms(3) [unfolded 10] show ?thesis unfolding 10
      by (rule div10_strict [where N = "10 ^ 11 * 2 ^ 16" and e = "- 16"
            and N' = "10 ^ 10 * 2 ^ 19" and e' = "- 19"])
        (simp_all add: power_int_minus emin_def)
  qed
  then show ?thesis by simp
qed

text \<open>
  The number of divisions by 10: at most \<open>k\<close> below \<open>bnd * 10 ^ k\<close>, and more than
  \<open>k\<close> from \<open>bnd * 10 ^ k\<close> on.
\<close>

lemma is_double_pow10: "k \<le> 15 \<Longrightarrow> is_double (10 ^ k)"
proof -
  assume "k \<le> 15"
  then have "(10::int) ^ k \<le> 10 ^ 15" by (intro power_increasing) simp_all
  then have "\<bar>(10::int) ^ k\<bar> < 2 ^ 53" by simp
  then have "is_double (of_int (10 ^ k))" by (rule is_double_of_int)
  then show ?thesis by simp
qed

lemma div10_Fin:
  assumes "is_double x" "0 < x"
  shows "js_div (Fin x) (Fin 10) = Fin (round_mag (x / 10))" "is_double (round_mag (x / 10))"
proof -
  have "round_mag (x / 10) \<le> 2 * (x / 10)" using assms(2) by (intro round_mag_le_double) simp
  also have "\<dots> \<le> x" using assms(2) by simp
  also have "x < huge" using assms(1) by (rule is_double_less_huge)
  finally have fin: "round_mag (x / 10) < huge" .
  then show "js_div (Fin x) (Fin 10) = Fin (round_mag (x / 10))" using assms(2)
    by (simp add: round64_Fin)
  show "is_double (round_mag (x / 10))" using fin assms(2) by (intro is_double_round_mag) simp_all
qed

lemma div10_ge_pow:
  assumes "10 ^ Suc k \<le> x" "k \<le> 15"
  shows "10 ^ k \<le> round_mag (x / 10)"
  using assms is_double_pow10 [of k]
  by (intro round_mag_ge) (simp_all add: is_double_def)

lemma scale_down_count_le:
  "is_double x \<Longrightarrow> 0 < x \<Longrightarrow> x < 10 ^ (c + k) \<Longrightarrow> 2 \<le> c \<Longrightarrow> c + k \<le> 11 \<Longrightarrow>
   scale_down (Fin (10 ^ c)) (Fin x) p = Some (Fin m, p') \<Longrightarrow> p' \<le> p + int k"
proof (induction k arbitrary: x p)
  case 0
  then show ?case by (subst (asm) scale_down.simps) simp
next
  case (Suc k)
  show ?case
  proof (cases "x < 10 ^ c")
    case True
    with Suc.prems(6) show ?thesis by (subst (asm) scale_down.simps) simp
  next
    case False
    define r where "r = round_mag (x / 10)"
    have r: "js_div (Fin x) (Fin 10) = Fin r" "is_double r"
      unfolding r_def using Suc.prems(1,2) by (rule div10_Fin)+
    have "10 ^ Suc (c - 1) \<le> x" using False Suc.prems(4) by simp
    then have "10 ^ (c - 1) \<le> r" unfolding r_def using Suc.prems(5) by (intro div10_ge_pow) simp_all
    then have r0: "0 < r" by (rule less_le_trans [rotated]) simp
    have "r < 10 ^ (c + k)" unfolding r_def
      using Suc.prems by (intro div10_below) simp_all
    moreover have "scale_down (Fin (10 ^ c)) (Fin r) (p + 1) = Some (Fin m, p')"
      using Suc.prems(6) False r(1) by (subst (asm) scale_down.simps) simp
    ultimately have "p' \<le> p + 1 + int k"
      using Suc.prems(4,5) by (intro Suc.IH [OF r(2) r0]) simp_all
    then show ?thesis by simp
  qed
qed

lemma scale_down_count_ge:
  "is_double x \<Longrightarrow> 10 ^ (c + k) \<le> x \<Longrightarrow> 1 \<le> c \<Longrightarrow> c + k \<le> 15 \<Longrightarrow>
   scale_down (Fin (10 ^ c)) (Fin x) p = Some (Fin m, p') \<Longrightarrow> p + int k < p'"
proof (induction k arbitrary: x p)
  case 0
  have b: "is_double (10 ^ c / 10)" "(0::rat) < 10 ^ c"
    using is_double_pow10 [of "c - 1"] 0(3,4) by (simp_all add: power_diff)
  have x0: "0 < x" using 0(2) by (rule less_le_trans [rotated]) simp
  from scale_down_returns [OF b 0(1) x0, of p] 0(2,5) show ?case by auto
next
  case (Suc k)
  have x0: "0 < x" using Suc.prems(2) by (rule less_le_trans [rotated]) simp
  define r where "r = round_mag (x / 10)"
  have r: "js_div (Fin x) (Fin 10) = Fin r" "is_double r"
    unfolding r_def using Suc.prems(1) x0 by (rule div10_Fin)+
  have "(10::rat) ^ c \<le> 10 ^ (c + Suc k)" by (intro power_increasing) simp_all
  with Suc.prems(2) have ge: "10 ^ c \<le> x" by simp
  have "10 ^ (c + k) \<le> r" unfolding r_def using Suc.prems(2,4) by (intro div10_ge_pow) simp_all
  moreover have "scale_down (Fin (10 ^ c)) (Fin r) (p + 1) = Some (Fin m, p')"
    using Suc.prems(5) ge r(1) by (subst (asm) scale_down.simps) simp
  ultimately have "p + 1 + int k < p'"
    using Suc.prems(3,4) by (intro Suc.IH [OF r(2)]) simp_all
  then show ?case by simp
qed

lemma scale_up_noop: "b \<le> m \<Longrightarrow> scale_up (Fin b) (Fin m) p = Some (Fin m, p)"
  by (subst scale_up.simps) simp

lemma norm_run:
  assumes x: "is_double x" "0 < x" and c: "1 \<le> c" "c \<le> 10"
  shows "\<exists>m0 p0 m p.
      scale_down (Fin (10 ^ Suc c)) (Fin x) 0 = Some (Fin m0, p0)
    \<and> scale_up (Fin (10 ^ c)) (Fin m0) p0 = Some (Fin m, p)
    \<and> is_double m \<and> 10 ^ c \<le> m \<and> m \<le> 10 ^ Suc c
    \<and> (x < 10 ^ c \<longrightarrow> p < 0)
    \<and> (10 ^ c \<le> x \<longrightarrow> m < 10 ^ Suc c \<and> 0 \<le> p)
    \<and> (10 ^ c \<le> x \<and> x < 10 ^ Suc c \<longrightarrow> m = x \<and> p = 0)
    \<and> (\<forall>k. x < 10 ^ (Suc c + k) \<and> Suc c + k \<le> 11 \<longrightarrow> p \<le> int k)
    \<and> (\<forall>k. 10 ^ (Suc c + k) \<le> x \<and> Suc c + k \<le> 15 \<longrightarrow> int k < p)"
proof -
  have b: "is_double (10 ^ Suc c / 10)" "(0::rat) < 10 ^ Suc c"
    using is_double_pow10 [of c] c by simp_all
  from scale_down_returns [OF b x, of 0] obtain m0 p0 where
    d: "scale_down (Fin (10 ^ Suc c)) (Fin x) 0 = Some (Fin m0, p0)" "is_double m0" "0 < m0"
       "m0 < 10 ^ Suc c" "p0 = 0 \<and> m0 = x \<or> 0 < p0 \<and> 10 ^ Suc c / 10 \<le> m0"
    by blast
  have b': "is_double (10 * 10 ^ c)" "(0::rat) < 10 ^ c"
    using is_double_pow10 [of "Suc c"] c by simp_all
  from scale_up_returns [OF b' d(2,3), of p0] obtain m p where
    u: "scale_up (Fin (10 ^ c)) (Fin m0) p0 = Some (Fin m, p)" "is_double m" "10 ^ c \<le> m"
       "p = p0 \<and> m = m0 \<or> p < p0 \<and> m \<le> 10 * 10 ^ c"
    by blast
  have le: "x < 10 ^ (Suc c + k) \<Longrightarrow> Suc c + k \<le> 11 \<Longrightarrow> p0 \<le> int k" for k
    using scale_down_count_le [OF x, of "Suc c" k 0 m0 p0] d(1) c by simp
  have ge: "10 ^ (Suc c + k) \<le> x \<Longrightarrow> Suc c + k \<le> 15 \<Longrightarrow> int k < p0" for k
    using scale_down_count_ge [OF x(1), of "Suc c" k 0 m0 p0] d(1) by simp
  have pp: "p \<le> p0" using u(4) by auto
  have small: "x < 10 ^ Suc c \<Longrightarrow> p0 = 0 \<and> m0 = x"
    using le [of 0] c d(5) by auto
  have noop: "10 ^ c \<le> m0 \<Longrightarrow> p = p0 \<and> m = m0"
    using scale_up_noop [of "10 ^ c" m0 p0] u(1) by simp
  have big: "10 ^ c \<le> x \<Longrightarrow> 10 ^ c \<le> m0 \<and> 0 \<le> p0"
    using d(5) by auto
  have 1: "m \<le> 10 ^ Suc c" using u(4) d(4) by auto
  have 2: "x < 10 ^ c \<longrightarrow> p < 0"
  proof
    assume lt: "x < 10 ^ c"
    also have "(10::rat) ^ c \<le> 10 ^ Suc c" by simp
    finally have "p0 = 0 \<and> m0 = x" by (rule small)
    with lt u(3,4) show "p < 0" by auto
  qed
  have 3: "10 ^ c \<le> x \<longrightarrow> m < 10 ^ Suc c \<and> 0 \<le> p"
    using big noop d(4) by auto
  have 4: "10 ^ c \<le> x \<and> x < 10 ^ Suc c \<longrightarrow> m = x \<and> p = 0"
    using small noop by auto
  have 5: "\<forall>k. x < 10 ^ (Suc c + k) \<and> Suc c + k \<le> 11 \<longrightarrow> p \<le> int k"
    using le pp by force
  have 6: "\<forall>k. 10 ^ (Suc c + k) \<le> x \<and> Suc c + k \<le> 15 \<longrightarrow> int k < p"
  proof (intro allI impI)
    fix k assume k: "10 ^ (Suc c + k) \<le> x \<and> Suc c + k \<le> 15"
    have "(10::rat) ^ c \<le> 10 ^ (Suc c + k)" by (intro power_increasing) simp_all
    with k have "10 ^ c \<le> x" by simp
    with big noop have "p = p0" by simp
    with ge [of k] k show "int k < p" by simp
  qed
  from d(1) u(1,2,3) 1 2 3 4 5 6 show ?thesis by blast
qed

section \<open>The digits and the result\<close>

text \<open>
  Every digit is an integer; those taken modulo 10 lie within 0 to 9 always, and the
  first of four bands does when the mantissa is below 100.
\<close>

lemma bad_digit_int: "bad_digit (Fin (of_int k)) \<longleftrightarrow> k < 0 \<or> 9 < k"
proof -
  have "(of_int k :: rat) < 0 \<longleftrightarrow> k < 0" by simp
  moreover have "(9::rat) < of_int k \<longleftrightarrow> 9 < k" by (metis of_int_less_iff of_int_numeral)
  ultimately show ?thesis by (simp add: bad_digit_def)
qed

lemma js_index_int:
  "0 \<le> k \<Longrightarrow> nat k < length xs \<Longrightarrow> js_index xs (Fin (of_int k)) = Str (xs ! nat k)"
  by simp

lemma mod10_digit:
  assumes "0 \<le> m"
  shows "\<exists>k. Math_floor (js_mod (Fin m) (Fin 10)) = Fin (of_int k) \<and> 0 \<le> k \<and> k \<le> 9"
proof -
  define k where "k = \<lfloor>m - 10 * of_int \<lfloor>m / 10\<rfloor>\<rfloor>"
  have "of_int \<lfloor>m / 10\<rfloor> \<le> m / 10" "m / 10 < of_int \<lfloor>m / 10\<rfloor> + 1" by linarith+
  then have "0 \<le> m - 10 * of_int \<lfloor>m / 10\<rfloor>" "m - 10 * of_int \<lfloor>m / 10\<rfloor> < 10" by simp_all
  then have "0 \<le> k" "k < 10" unfolding k_def by (simp_all add: floor_less_iff)
  moreover have "Math_floor (js_mod (Fin m) (Fin 10)) = Fin (of_int k)"
    using assms by (simp add: trunc_def k_def)
  ultimately show ?thesis by (intro exI [of _ k]) simp
qed

lemma int_mod10_digit:
  assumes "0 \<le> n"
  shows "\<exists>k. js_mod (Fin (of_int n)) (Fin 10) = Fin (of_int k) \<and> 0 \<le> k \<and> k \<le> 9"
proof -
  have "\<lfloor>(of_int n :: rat) / 10\<rfloor> = n div 10"
    using floor_divide_of_int_eq [of n 10, where ?'a = rat] by simp
  then have "js_mod (Fin (of_int n)) (Fin 10) = Fin (of_int (n - 10 * (n div 10)))"
    using assms by (simp add: trunc_def)
  also have "n - 10 * (n div 10) = n mod 10" by (simp add: minus_mult_div_eq_mod)
  finally show ?thesis by (intro exI [of _ "n mod 10"]) simp
qed

lemma div_Fin:
  assumes "is_double x" "0 < x" "1 \<le> c"
  shows "\<exists>r. js_div (Fin x) (Fin c) = Fin r \<and> 0 \<le> r"
proof -
  have q: "0 \<le> x / c" using assms by simp
  have "round_mag (x / c) \<le> x"
    using assms by (intro round_mag_le) (simp_all add: is_double_def pos_divide_le_eq)
  also have "x < huge" using assms(1) by (rule is_double_less_huge)
  finally have "round_mag (x / c) < huge" .
  with q assms(3) show ?thesis by (simp add: round64_Fin round_mag_nonneg)
qed

lemma divmod_digit:
  assumes "is_double x" "0 < x" "1 \<le> c"
  shows "\<exists>k. js_mod (Math_floor (js_div (Fin x) (Fin c))) (Fin 10) = Fin (of_int k)
     \<and> 0 \<le> k \<and> k \<le> 9"
proof -
  from div_Fin [OF assms] obtain r where r: "js_div (Fin x) (Fin c) = Fin r" "0 \<le> r" by blast
  then have "0 \<le> \<lfloor>r\<rfloor>" by simp
  from int_mod10_digit [OF this] r(1) show ?thesis by simp
qed

lemma div10_digit:
  assumes "is_double m" "10 \<le> m" "m < 100"
  shows "\<exists>k. Math_floor (js_div (Fin m) (Fin 10)) = Fin (of_int k) \<and> 1 \<le> k \<and> k \<le> 9"
proof -
  have m0: "0 < m" using assms(2) by simp
  define r where "r = round_mag (m / 10)"
  have r: "js_div (Fin m) (Fin 10) = Fin r" unfolding r_def using assms(1) m0 by (rule div10_Fin)
  have "r < 10" unfolding r_def using assms(1,3) m0 by (intro div10_lt_100) simp_all
  moreover have "10 ^ 0 \<le> r" unfolding r_def using assms(2) by (intro div10_ge_pow) simp_all
  ultimately have "1 \<le> \<lfloor>r\<rfloor>" "\<lfloor>r\<rfloor> \<le> 9" by (simp_all add: le_floor_iff floor_less_iff [symmetric]) 
  with r show ?thesis by (intro exI [of _ "\<lfloor>r\<rfloor>"]) simp
qed

text \<open>
  The result on a finite positive double, in closed form: \<^verbatim>\<open>null\<close> when an exponent
  leaves 0 to 9 (or the first digit exceeds 9, which happens below 10 only), both
  sequences read from the tables otherwise.
\<close>

lemma length_colors [simp]: "length digitColor = 10" "length multiplierColor = 10"
  by (simp_all add: digitColor_def multiplierColor_def)

lemma js_index_digit:
  "\<not> k < 0 \<Longrightarrow> \<not> 9 < k \<Longrightarrow> length xs = 10 \<Longrightarrow> js_index xs (Fin (of_int k)) = Str (xs ! nat k)"
  by simp

lemma colorCode_shape:
  assumes x: "is_double x" "0 < x"
  shows "\<exists>m4 p4 m5 p5 a b c d e.
      normalize4 (Fin x) = Some (Fin m4, p4) \<and> normalize5 (Fin x) = Some (Fin m5, p5)
    \<and> Math_floor (js_div (Fin m4) (Fin 10)) = Fin (of_int a)
    \<and> Math_floor (js_mod (Fin m4) (Fin 10)) = Fin (of_int b)
    \<and> (x < 10 \<longrightarrow> p4 < 0) \<and> (10 \<le> x \<longrightarrow> 0 \<le> p4 \<and> 1 \<le> a \<and> a \<le> 9)
    \<and> (\<forall>k. x < 10 ^ (2 + k) \<and> 2 + k \<le> 11 \<longrightarrow> p4 \<le> int k)
    \<and> (\<forall>k. 10 ^ (2 + k) \<le> x \<and> 2 + k \<le> 15 \<longrightarrow> int k < p4)
    \<and> (x < 100 \<longrightarrow> p5 < 0) \<and> (100 \<le> x \<longrightarrow> 0 \<le> p5)
    \<and> (\<forall>k. x < 10 ^ (3 + k) \<and> 3 + k \<le> 11 \<longrightarrow> p5 \<le> int k)
    \<and> 0 \<le> a \<and> 0 \<le> b \<and> b \<le> 9 \<and> 0 \<le> c \<and> c \<le> 9 \<and> 0 \<le> d \<and> d \<le> 9 \<and> 0 \<le> e \<and> e \<le> 9
    \<and> computeResistorColorCode (Fin x) = Some
         (if 9 < a \<or> p4 < 0 \<or> 9 < p4 \<or> p5 < 0 \<or> 9 < p5 then Null
          else Obj \<lparr>fourBand = [Str (digitColor ! nat a), Str (digitColor ! nat b),
                               Str (multiplierColor ! nat p4), Str gold],
                   fiveBand = [Str (digitColor ! nat c), Str (digitColor ! nat d),
                               Str (digitColor ! nat e), Str (multiplierColor ! nat p5),
                               Str gold]\<rparr>)"
proof -
  from norm_run [OF x, of 1] obtain m0 p0 m4 p4 where
    r4: "scale_down (Fin 100) (Fin x) 0 = Some (Fin m0, p0)"
        "scale_up (Fin 10) (Fin m0) p0 = Some (Fin m4, p4)"
        "is_double m4" "10 \<le> m4"
        "x < 10 \<longrightarrow> p4 < 0" "10 \<le> x \<longrightarrow> m4 < 100 \<and> 0 \<le> p4"
        "\<forall>k. x < 10 ^ (2 + k) \<and> 2 + k \<le> 11 \<longrightarrow> p4 \<le> int k"
        "\<forall>k. 10 ^ (2 + k) \<le> x \<and> 2 + k \<le> 15 \<longrightarrow> int k < p4"
    by (auto simp: numeral_2_eq_2 [symmetric])
  from norm_run [OF x, of 2] obtain n0 q0 m5 p5 where
    r5: "scale_down (Fin 1000) (Fin x) 0 = Some (Fin n0, q0)"
        "scale_up (Fin 100) (Fin n0) q0 = Some (Fin m5, p5)"
        "is_double m5" "100 \<le> m5"
        "x < 100 \<longrightarrow> p5 < 0" "100 \<le> x \<longrightarrow> m5 < 1000 \<and> 0 \<le> p5"
        "\<forall>k. x < 10 ^ (3 + k) \<and> 3 + k \<le> 11 \<longrightarrow> p5 \<le> int k"
    by (auto simp: numeral_3_eq_3 [symmetric])
  have m4: "0 < m4" "0 \<le> m4" using r4(4) by simp_all
  have m5: "0 < m5" "0 \<le> m5" using r5(4) by simp_all
  from div_Fin [OF r4(3) m4(1), of 10] obtain ra where
    ra: "js_div (Fin m4) (Fin 10) = Fin ra" "0 \<le> ra" by auto
  define a where "a = \<lfloor>ra\<rfloor>"
  have a: "Math_floor (js_div (Fin m4) (Fin 10)) = Fin (of_int a)" "0 \<le> a"
    using ra by (simp_all add: a_def)
  have a19: "10 \<le> x \<longrightarrow> 1 \<le> a \<and> a \<le> 9"
  proof
    assume "10 \<le> x"
    with r4(6) have "m4 < 100" by simp
    from div10_digit [OF r4(3,4) this] a(1) show "1 \<le> a \<and> a \<le> 9" by auto
  qed
  from mod10_digit [OF m4(2)] obtain b where
    b: "Math_floor (js_mod (Fin m4) (Fin 10)) = Fin (of_int b)" "0 \<le> b" "b \<le> 9" by blast
  from divmod_digit [OF r5(3) m5(1), of 100] obtain c where
    c: "js_mod (Math_floor (js_div (Fin m5) (Fin 100))) (Fin 10) = Fin (of_int c)" "0 \<le> c" "c \<le> 9"
    by auto
  from divmod_digit [OF r5(3) m5(1), of 10] obtain d where
    d: "js_mod (Math_floor (js_div (Fin m5) (Fin 10))) (Fin 10) = Fin (of_int d)" "0 \<le> d" "d \<le> 9"
    by auto
  from mod10_digit [OF m5(2)] obtain e where
    e: "Math_floor (js_mod (Fin m5) (Fin 10)) = Fin (of_int e)" "0 \<le> e" "e \<le> 9" by blast
  have "computeResistorColorCode (Fin x) = Some
         (if 9 < a \<or> p4 < 0 \<or> 9 < p4 \<or> p5 < 0 \<or> 9 < p5 then Null
          else Obj \<lparr>fourBand = [Str (digitColor ! nat a), Str (digitColor ! nat b),
                               Str (multiplierColor ! nat p4), Str gold],
                   fiveBand = [Str (digitColor ! nat c), Str (digitColor ! nat d),
                               Str (digitColor ! nat e), Str (multiplierColor ! nat p5),
                               Str gold]\<rparr>)"
    unfolding computeResistorColorCode_def
    using x(2) a(2) b(2,3) c(2,3) d(2,3) e(2,3)
    by (simp add: r4(1,2) r5(1,2) a(1) b(1) c(1) d(1) e(1) bad_digit_int js_index_digit
          del: js_div.simps js_mod.simps Math_floor.simps js_index.simps)
  moreover have "normalize4 (Fin x) = Some (Fin m4, p4)"
    by (simp add: normalize4_def r4(1,2))
  moreover have "normalize5 (Fin x) = Some (Fin m5, p5)"
    by (simp add: normalize5_def r5(1,2))
  ultimately show ?thesis
    using r4(5,6,7,8) r5(5,6,7) a a19 b c(2,3) d(2,3) e(2,3) by blast
qed

lemma round64_0: "round64 0 = Fin 0"
  using round64_exact [of 0] is_double_0 by simp

lemma round64_1: "round64 1 = Fin 1"
  using round64_exact [of 1] is_double_of_int [of 1] by simp

lemmas colorCode_eval =
  computeResistorColorCode_def scale_down.simps scale_up.simps round64_numeral round64_1
  floor_round64 trunc_def bad_digit_def digitColor_def multiplierColor_def

lemmas decode_eval = decode_bands_def ascii_def gold_def

lemma out_of_range_null:
  assumes "is_double x" "0 < x" "x < 100 \<or> 10 ^ 11 \<le> x"
  shows "computeResistorColorCode (Fin x) = Some Null"
proof -
  from colorCode_shape [OF assms(1,2)] obtain p4 p5 a b c d e where
    s: "x < 100 \<longrightarrow> p5 < 0"
       "\<forall>k. 10 ^ (2 + k) \<le> x \<and> 2 + k \<le> 15 \<longrightarrow> int k < p4"
       "computeResistorColorCode (Fin x) = Some
         (if 9 < a \<or> p4 < 0 \<or> 9 < p4 \<or> p5 < 0 \<or> 9 < p5 then Null
          else Obj \<lparr>fourBand = [Str (digitColor ! nat a), Str (digitColor ! nat b),
                               Str (multiplierColor ! nat p4), Str gold],
                   fiveBand = [Str (digitColor ! nat c), Str (digitColor ! nat d),
                               Str (digitColor ! nat e), Str (multiplierColor ! nat p5),
                               Str gold]\<rparr>)"
    by (elim exE conjE) (rule that; assumption)
  from assms(3) have "p5 < 0 \<or> 9 < p4"
  proof
    assume "x < 100" with s(1) show ?thesis by simp
  next
    assume "10 ^ 11 \<le> x"
    with s(2) [rule_format, of 9] show ?thesis by simp
  qed
  with s(3) show ?thesis by auto
qed

lemma in_range_result:
  assumes "is_double x" "100 \<le> x" "x < 10 ^ 11"
  shows "\<exists>r. computeResistorColorCode (Fin x) = Some (Obj r)"
proof -
  have x0: "0 < x" using assms(2) by simp
  from colorCode_shape [OF assms(1) x0] obtain p4 p5 a b c d e where
    s: "10 \<le> x \<longrightarrow> 0 \<le> p4 \<and> 1 \<le> a \<and> a \<le> 9"
       "\<forall>k. x < 10 ^ (2 + k) \<and> 2 + k \<le> 11 \<longrightarrow> p4 \<le> int k"
       "100 \<le> x \<longrightarrow> 0 \<le> p5"
       "\<forall>k. x < 10 ^ (3 + k) \<and> 3 + k \<le> 11 \<longrightarrow> p5 \<le> int k"
       "computeResistorColorCode (Fin x) = Some
         (if 9 < a \<or> p4 < 0 \<or> 9 < p4 \<or> p5 < 0 \<or> 9 < p5 then Null
          else Obj \<lparr>fourBand = [Str (digitColor ! nat a), Str (digitColor ! nat b),
                               Str (multiplierColor ! nat p4), Str gold],
                   fiveBand = [Str (digitColor ! nat c), Str (digitColor ! nat d),
                               Str (digitColor ! nat e), Str (multiplierColor ! nat p5),
                               Str gold]\<rparr>)"
    by (elim exE conjE) (rule that; assumption)
  have "0 \<le> p4" "a \<le> 9" "0 \<le> p5" using s(1,3) assms(2) by simp_all
  moreover have "p4 \<le> 9" using s(2) [rule_format, of 9] assms(3) by simp
  moreover have "p5 \<le> 8" using s(4) [rule_format, of 8] assms(3) by simp
  ultimately show ?thesis using s(5) by simp
qed

lemma colorCode_guard:
  "\<not> isFinite ohms \<or> js_le ohms (Fin 0) \<Longrightarrow> computeResistorColorCode ohms = Some Null"
  by (simp add: computeResistorColorCode_def)

lemma colorCode_Obj_positive:
  assumes "computeResistorColorCode ohms = Some (Obj r)"
  obtains x where "ohms = Fin x" "0 < x"
proof -
  from assms colorCode_guard [of ohms] have g: "isFinite ohms" "\<not> js_le ohms (Fin 0)" by auto
  from g(1) obtain x where "ohms = Fin x" by (cases ohms) simp_all
  with g(2) that show thesis by simp
qed

lemma digitColor_name:
  assumes "k < 10"
  shows "\<exists>name \<in> set [''Black'', ''Brown'', ''Red'', ''Orange'', ''Yellow'',
      ''Green'', ''Blue'', ''Violet'', ''Grey'', ''White'']. digitColor ! k = ascii name"
proof -
  have "digitColor ! k \<in> set digitColor" using assms by (intro nth_mem) simp
  then show ?thesis unfolding digitColor_def by auto
qed

section \<open>Rounding a value that is not a double\<close>

text \<open>
  A value within a quarter of a unit in the last place of a double with a full
  significand rounds to that double.
\<close>

lemma round_mag_eqI:
  assumes q: "0 \<le> q" and m: "2 ^ 52 \<le> m" "m < 2 ^ 53" and e: "emin \<le> e"
    and near: "\<bar>q - of_int m * 2 powi e\<bar> * 4 < 2 powi e"
  shows "round_mag q = of_int m * 2 powi e"
proof -
  define r :: rat where "r = of_int m * 2 powi e"
  define u :: rat where "u = 2 powi (e - 1)"
  have u0: "0 < u" by (simp add: u_def)
  have "u = 2 powi e / 2 powi 1" unfolding u_def by (rule power_int_diff) simp
  then have ue: "2 powi e = 2 * u" by simp
  have dr: "dyadic53 r" unfolding r_def using m e by (intro dyadic53I_le) simp_all
  have n1: "\<bar>round_mag q - q\<bar> \<le> \<bar>r - q\<bar>" using q dr by (rule round_mag_near)
  have n2: "\<bar>q - r\<bar> * 2 < u" using near by (simp add: r_def ue)
  have "(of_int (2 ^ 52) :: rat) \<le> of_int m" using m(1) by (simp only: of_int_le_iff)
  then have "2 ^ 52 * (2 * u) \<le> r" unfolding r_def ue by (simp add: mult_right_mono u0 less_imp_le)
  with n2 u0 have qlow: "2 ^ 52 * u < q" by (simp add: abs_if split: if_splits)
  have E: "e - 1 \<le> expo q"
  proof (rule ccontr)
    assume "\<not> e - 1 \<le> expo q"
    then have "expo q + 53 \<le> e - 1 + 52" by simp
    then have "(2::rat) powi (expo q + 53) \<le> 2 powi (e - 1 + 52)"
      by (intro power_int_increasing) simp_all
    also have "\<dots> = 2 powi (e - 1) * 2 powi 52" by (rule power_int_add) simp
    also have "\<dots> = 2 ^ 52 * u" by (simp add: u_def)
    finally show False using expo_upper [OF q] qlow by simp
  qed
  define A where "A = rhe (q / 2 powi expo q) * 2 ^ nat (expo q - (e - 1))"
  have "(2::rat) powi expo q = 2 powi (expo q - (e - 1)) * 2 powi (e - 1)"
    by (simp add: power_int_add [symmetric])
  also have "(2::rat) powi (expo q - (e - 1)) = of_int (2 ^ nat (expo q - (e - 1)))"
    using E by (simp add: power_int_nonneg_exp)
  finally have rm: "round_mag q = of_int A * u"
    by (simp add: round_mag_def A_def u_def)
  have r2: "r = of_int (2 * m) * u" by (simp add: r_def ue)
  have "\<bar>round_mag q - r\<bar> \<le> \<bar>round_mag q - q\<bar> + \<bar>q - r\<bar>" by simp
  also have "\<dots> \<le> \<bar>q - r\<bar> * 2" using n1 by (simp add: abs_minus_commute)
  also have "\<dots> < u" by (rule n2)
  finally have "\<bar>of_int (A - 2 * m) :: rat\<bar> * u < 1 * u"
    using u0 by (simp add: rm r2 left_diff_distrib [symmetric] abs_mult)
  then have "\<bar>of_int (A - 2 * m) :: rat\<bar> < 1" using u0 by (simp only: mult_less_cancel_right_pos)
  then have "\<bar>A - 2 * m\<bar> < 1"
    by (metis of_int_abs of_int_less_iff of_int_1)
  then have "A = 2 * m" by simp
  with rm r2 have "round_mag q = r" by simp
  then show ?thesis by (simp only: r_def)
qed

lemma round64_eqI:
  assumes "0 \<le> q" "2 ^ 52 \<le> m" "m < 2 ^ 53" "emin \<le> e" "r = of_int m * 2 powi e" "r < huge"
    "\<bar>q - r\<bar> * 4 < 2 powi e"
  shows "round64 q = Fin r"
  using assms round_mag_eqI [of q m e] by (simp add: round64_Fin)

lemma small_less_huge: "x \<le> 2 ^ 53 \<Longrightarrow> x < huge"
proof -
  assume "x \<le> 2 ^ 53"
  also have "(2::rat) ^ 53 < 2 ^ 1024" by (rule power_strict_increasing) simp_all
  finally show ?thesis by (simp add: huge_def)
qed

lemma parse_4_7: "round64 (47 / 10) = Fin (5291729562160333 / 2 ^ 50)"
proof (rule round64_eqI [where m = 5291729562160333 and e = "- 50"])
  show "(5291729562160333 / 2 ^ 50 :: rat) < huge" by (rule small_less_huge) simp
qed (simp_all add: power_int_minus emin_def field_simps)

lemma times_1000: "round64 (661466195270041625 / 140737488355328) = Fin 4700"
proof (rule round64_eqI [where m = "4700 * 2 ^ 40" and e = "- 40"])
  show "(4700 :: rat) < huge" by (rule small_less_huge) simp
qed (simp_all add: power_int_minus emin_def field_simps)

lemmas extract_eval =
  extractOhmValues_def match_number_def match_suffix_def suffixes_def is_digit_def is_space_def
  ascii_def parseFloat_def decimal_value_def digits_value_def toLowerCase_def factor_of_def
  round64_numeral parse_4_7 times_1000 Let_def

section \<open>The extraction loop and its specification\<close>

text \<open>
  The loop keeps the first occurrence of each value: it appends to \<^verbatim>\<open>out\<close> what
  \<^verbatim>\<open>out\<close> does not hold yet. Group 2 of a match is one of the six suffixes or absent,
  and on those the factor of the code is the scale of the specification.
\<close>

lemma remdups_snoc: "remdups (xs @ [v]) = filter (\<lambda>y. y \<noteq> v) (remdups xs) @ [v]"
  by (induction xs) auto

lemma keep_first_Cons: "keep_first (v # vs) = v # filter (\<lambda>y. y \<noteq> v) (keep_first vs)"
  by (simp add: keep_first_def remdups_snoc rev_filter)

lemma keep_first_Nil: "keep_first [] = []"
  by (simp add: keep_first_def)

lemma set_keep_first: "set (keep_first xs) = set xs"
  by (simp add: keep_first_def)

definition push_new :: "'a list \<Rightarrow> 'a list \<Rightarrow> 'a list" where
  "push_new out vs = foldl (\<lambda>acc v. if v \<in> set acc then acc else acc @ [v]) out vs"

lemma push_new_keep_first:
  "push_new out vs = out @ filter (\<lambda>v. v \<notin> set out) (keep_first vs)"
proof (induction vs arbitrary: out)
  case Nil
  show ?case by (simp add: push_new_def keep_first_Nil)
next
  case (Cons v vs)
  have step: "push_new out (v # vs) = push_new (if v \<in> set out then out else out @ [v]) vs"
    by (simp add: push_new_def)
  show ?case
  proof (cases "v \<in> set out")
    case True
    then have "filter (\<lambda>y. y \<notin> set out) (filter (\<lambda>y. y \<noteq> v) (keep_first vs))
        = filter (\<lambda>y. y \<notin> set out) (keep_first vs)"
      by (auto intro: filter_cong)
    with True show ?thesis by (simp add: step Cons.IH keep_first_Cons)
  next
    case False
    have "filter (\<lambda>y. y \<notin> set (out @ [v])) (keep_first vs)
        = filter (\<lambda>y. y \<notin> set out) (filter (\<lambda>y. y \<noteq> v) (keep_first vs))"
      by (auto intro: filter_cong)
    with False show ?thesis by (simp add: step Cons.IH keep_first_Cons)
  qed
qed

definition suffix_ok :: "jsstring option \<Rightarrow> bool" where
  "suffix_ok g2 \<longleftrightarrow> g2 = None \<or> (\<exists>a \<in> set suffixes. g2 = Some a)"

lemma match_suffix_ok: "match_suffix s = (g2, r) \<Longrightarrow> suffix_ok g2"
  by (auto simp: match_suffix_def suffix_ok_def find_Some_iff split: option.splits)

lemma matchAll_suffix_ok: "(g1, g2) \<in> set (matchAll s) \<Longrightarrow> suffix_ok g2"
proof (induction s rule: matchAll.induct)
  case 1
  then show ?case by simp
next
  case (2 c s)
  show ?case
  proof (cases "match_number (c # s)")
    case None
    with 2 show ?thesis by simp
  next
    case (Some a)
    obtain h1 r where a: "a = (h1, r)" by (cases a)
    obtain h2 r' where m: "match_suffix (dropWhile is_space r) = (h2, r')"
      by (cases "match_suffix (dropWhile is_space r)")
    from 2(3) Some a m have "(g1, g2) = (h1, h2) \<or> (g1, g2) \<in> set (matchAll r')" by simp
    then show ?thesis
    proof
      assume "(g1, g2) = (h1, h2)"
      with match_suffix_ok [OF m] show ?thesis by simp
    next
      assume "(g1, g2) \<in> set (matchAll r')"
      with 2(2) [OF Some a [symmetric] m [symmetric]] show ?thesis by simp
    qed
  qed
qed

lemma factor_of_spec_scale:
  "suffix_ok g2 \<Longrightarrow>
   factor_of (toLowerCase (case g2 of None \<Rightarrow> [] | Some s \<Rightarrow> s)) = Fin (spec_scale g2)"
  by (auto simp: suffix_ok_def suffixes_def factor_of_def toLowerCase_def spec_scale_def ascii_def)

definition spec_values :: "(jsstring \<times> jsstring option) list \<Rightarrow> jsnum list" where
  "spec_values ms = map (\<lambda>(g1, g2). js_mul (parseFloat g1) (Fin (spec_scale g2)))
       (filter (\<lambda>(g1, g2). isFinite (parseFloat g1)) ms)"

lemma extract_loop_push_new:
  "\<forall>(g1, g2) \<in> set ms. suffix_ok g2 \<Longrightarrow>
   extract_loop ms (out, set out) = (push_new out (spec_values ms), set (push_new out (spec_values ms)))"
proof (induction ms arbitrary: out)
  case Nil
  show ?case by (simp add: push_new_def spec_values_def)
next
  case (Cons m ms)
  obtain g1 g2 where m: "m = (g1, g2)" by (cases m)
  from Cons.prems m have ok: "suffix_ok g2" and rest: "\<forall>(g1, g2) \<in> set ms. suffix_ok g2"
    by auto
  note IH = Cons.IH [OF rest]
  show ?case
  proof (cases "isFinite (parseFloat g1)")
    case False
    then show ?thesis by (simp add: m IH spec_values_def)
  next
    case True
    define val where "val = js_mul (parseFloat g1) (Fin (spec_scale g2))"
    have sv: "spec_values ((g1, g2) # ms) = val # spec_values ms"
      using True by (simp add: spec_values_def val_def)
    have pn: "push_new out (val # vs) = push_new (if val \<in> set out then out else out @ [val]) vs" for vs
      by (simp add: push_new_def)
    show ?thesis
    proof (cases "val \<in> set out")
      case True
      with \<open>isFinite (parseFloat g1)\<close> show ?thesis
        by (simp add: m factor_of_spec_scale [OF ok] val_def [symmetric] IH sv pn Let_def)
    next
      case False
      have "insert val (set out) = set (out @ [val])" by simp
      with False \<open>isFinite (parseFloat g1)\<close> IH [of "out @ [val]"] show ?thesis
        by (simp add: m factor_of_spec_scale [OF ok] val_def [symmetric] sv pn Let_def
            del: set_append)
    qed
  qed
qed

lemma extract_eq_spec: "extractOhmValues text = spec_extractOhmValues text"
proof -
  have "\<forall>(g1, g2) \<in> set (matchAll text). suffix_ok g2" using matchAll_suffix_ok by auto
  from extract_loop_push_new [OF this, of "[]"] show ?thesis
    by (simp add: extractOhmValues_def spec_extractOhmValues_def push_new_keep_first
        spec_values_def)
qed

lemma round64_sign:
  assumes "0 \<le> q"
  shows "round64 q = PosInf \<or> (\<exists>r. round64 q = Fin r \<and> 0 \<le> r)"
  using assms round_mag_nonneg [of q] by (simp add: round64_def Let_def)

lemma decimal_value_nonneg: "0 \<le> decimal_value s"
  by (simp add: decimal_value_def Let_def)

lemma spec_scale_pos: "0 < spec_scale g2"
  by (simp add: spec_scale_def)

lemma spec_values_nonneg: "v \<in> set (spec_values ms) \<Longrightarrow> js_ge v (Fin 0)"
proof -
  assume "v \<in> set (spec_values ms)"
  then obtain g1 g2 where f: "isFinite (parseFloat g1)"
    and v: "v = js_mul (parseFloat g1) (Fin (spec_scale g2))"
    by (auto simp: spec_values_def)
  from f round64_sign [OF decimal_value_nonneg, of g1] obtain r where
    r: "parseFloat g1 = Fin r" "0 \<le> r" by (auto simp: parseFloat_def)
  have "0 \<le> r * spec_scale g2" using r(2) spec_scale_pos [of g2] by simp
  from round64_sign [OF this] show ?thesis by (auto simp: v r(1) js_ge_def js_le_def)
qed

lemma extract_nonneg: "v \<in> set (extractOhmValues txt) \<Longrightarrow> js_ge v (Fin 0)"
  using spec_values_nonneg [of v "matchAll txt"]
  by (simp add: extract_eq_spec spec_extractOhmValues_def set_keep_first spec_values_def)

section \<open>The bands of a result and its printed form\<close>

lemma toString_round:
  assumes "0 \<le> x" "x < 10 ^ 20"
  shows "Number_toString (Math_round (Fin x)) = Some (digits_of (nat \<lfloor>x + 1 / 2\<rfloor>))"
proof -
  define k where "k = \<lfloor>x + 1 / 2\<rfloor>"
  have k0: "0 \<le> k" using assms(1) by (simp add: k_def)
  have "of_int k \<le> x + 1 / 2" unfolding k_def by simp
  also have "\<dots> < 10 ^ 21" using assms(2) by simp
  finally have "\<bar>of_int k :: rat\<bar> < 10 ^ 21" using k0 by simp
  then show ?thesis using k0 by (simp add: Number_toString_def k_def [symmetric])
qed

lemma join4: "join sep [Str a, Str b, Str c, Str d] = a @ sep @ b @ sep @ c @ sep @ d"
  by simp

lemma join5: "join sep [Str a, Str b, Str c, Str d, Str e]
    = a @ sep @ b @ sep @ c @ sep @ d @ sep @ e"
  by simp

lemma result_bands:
  assumes "valid ohms" "computeResistorColorCode ohms = Some (Obj r)"
  shows "\<exists>x a b m c d e n. ohms = Fin x \<and> 100 \<le> x \<and> x < 10 ^ 11
        \<and> a < 10 \<and> b < 10 \<and> m < 10 \<and> c < 10 \<and> d < 10 \<and> e < 10 \<and> n < 10
        \<and> fourBand r = [Str (digitColor ! a), Str (digitColor ! b),
                         Str (multiplierColor ! m), Str gold]
        \<and> fiveBand r = [Str (digitColor ! c), Str (digitColor ! d), Str (digitColor ! e),
                         Str (multiplierColor ! n), Str gold]"
proof -
  from assms(2) obtain x where ohms: "ohms = Fin x" and x0: "0 < x"
    by (rule colorCode_Obj_positive)
  with assms(1) have dx: "is_double x" by simp
  have range: "100 \<le> x" "x < 10 ^ 11"
    using out_of_range_null [OF dx x0] assms(2) unfolding ohms by fastforce+
  from colorCode_shape [OF dx x0] obtain m4 p4 m5 p5 a b c d e where
    s: "0 \<le> a" "0 \<le> b" "b \<le> 9" "0 \<le> c" "c \<le> 9" "0 \<le> d" "d \<le> 9" "0 \<le> e" "e \<le> 9"
       "computeResistorColorCode (Fin x) = Some
         (if 9 < a \<or> p4 < 0 \<or> 9 < p4 \<or> p5 < 0 \<or> 9 < p5 then Null
          else Obj \<lparr>fourBand = [Str (digitColor ! nat a), Str (digitColor ! nat b),
                               Str (multiplierColor ! nat p4), Str gold],
                   fiveBand = [Str (digitColor ! nat c), Str (digitColor ! nat d),
                               Str (digitColor ! nat e), Str (multiplierColor ! nat p5),
                               Str gold]\<rparr>)"
    by (elim exE conjE) (rule that; assumption)
  from s(10) assms(2) have ok: "a \<le> 9" "0 \<le> p4" "p4 \<le> 9" "0 \<le> p5" "p5 \<le> 9"
    and r: "r = \<lparr>fourBand = [Str (digitColor ! nat a), Str (digitColor ! nat b),
                               Str (multiplierColor ! nat p4), Str gold],
                   fiveBand = [Str (digitColor ! nat c), Str (digitColor ! nat d),
                               Str (digitColor ! nat e), Str (multiplierColor ! nat p5),
                               Str gold]\<rparr>"
    unfolding ohms by (auto split: if_splits)
  have idx: "nat a < 10" "nat b < 10" "nat p4 < 10" "nat c < 10" "nat d < 10" "nat e < 10"
    "nat p5 < 10"
    using s(1-9) ok by simp_all
  have "ohms = Fin x \<and> 100 \<le> x \<and> x < 10 ^ 11
        \<and> nat a < 10 \<and> nat b < 10 \<and> nat p4 < 10 \<and> nat c < 10 \<and> nat d < 10 \<and> nat e < 10
        \<and> nat p5 < 10
        \<and> fourBand r = [Str (digitColor ! nat a), Str (digitColor ! nat b),
                         Str (multiplierColor ! nat p4), Str gold]
        \<and> fiveBand r = [Str (digitColor ! nat c), Str (digitColor ! nat d),
                         Str (digitColor ! nat e), Str (multiplierColor ! nat p5), Str gold]"
    using idx range ohms by (simp add: r)
  then show ?thesis by - (rule exI)+
qed

text \<open>
  Every value read from a question is a double or an infinity, the function returns on
  each of them, and the item of a value that has a result is fixed by its bands.
\<close>

lemma valid_round64: "0 \<le> q \<Longrightarrow> valid (round64 q)"
  using is_double_round_mag [of q] by (simp add: round64_def Let_def not_le)

lemma spec_values_valid: "v \<in> set (spec_values ms) \<Longrightarrow> valid v"
proof -
  assume "v \<in> set (spec_values ms)"
  then obtain g1 g2 where f: "isFinite (parseFloat g1)"
    and v: "v = js_mul (parseFloat g1) (Fin (spec_scale g2))"
    by (auto simp: spec_values_def)
  from f round64_sign [OF decimal_value_nonneg, of g1] obtain r where
    r: "parseFloat g1 = Fin r" "0 \<le> r" by (auto simp: parseFloat_def)
  have "0 \<le> r * spec_scale g2" using r(2) spec_scale_pos [of g2] by simp
  from valid_round64 [OF this] show ?thesis by (simp add: v r(1))
qed

lemma extract_valid: "v \<in> set (extractOhmValues txt) \<Longrightarrow> valid v"
  using spec_values_valid [of v "matchAll txt"]
  by (simp add: extract_eq_spec spec_extractOhmValues_def set_keep_first spec_values_def)

lemma colorCode_valid_returns:
  assumes "valid val"
  shows "\<exists>r. computeResistorColorCode val = Some r"
proof (cases "\<not> isFinite val \<or> js_le val (Fin 0)")
  case True
  from colorCode_guard [OF this] show ?thesis by simp
next
  case False
  then obtain x where x: "val = Fin x" "0 < x" by (cases val) auto
  with assms have "is_double x" by simp
  from colorCode_returns [OF this x(2)] show ?thesis by (simp add: x(1))
qed

lemma item_of_result:
  assumes "valid val" "computeResistorColorCode val = Some (Obj mapping)"
  shows "\<exists>x c1 c2 c3 c4 d1 d2 d3 d4 d5.
      val = Fin x
    \<and> fourBand mapping = [Str c1, Str c2, Str c3, Str c4]
    \<and> fiveBand mapping = [Str d1, Str d2, Str d3, Str d4, Str d5]
    \<and> format_part val mapping = Some
         (ascii ''- '' @ digits_of (nat \<lfloor>x + 1 / 2\<rfloor>) @ ascii '' '' @ [0x3A9] @ ascii '':''
          @ [10] @ ascii ''  - 4'' @ [0x2011] @ ascii ''band: ''
          @ c1 @ ascii '' - '' @ c2 @ ascii '' - '' @ c3 @ ascii '' - '' @ c4
          @ [10] @ ascii ''  - 5'' @ [0x2011] @ ascii ''band: ''
          @ d1 @ ascii '' - '' @ d2 @ ascii '' - '' @ d3 @ ascii '' - '' @ d4 @ ascii '' - '' @ d5)"
proof -
  from result_bands [OF assms] obtain x a b m c d e n where
    b: "val = Fin x" "100 \<le> x" "x < 10 ^ 11"
       "fourBand mapping = [Str (digitColor ! a), Str (digitColor ! b),
                         Str (multiplierColor ! m), Str gold]"
       "fiveBand mapping = [Str (digitColor ! c), Str (digitColor ! d), Str (digitColor ! e),
                         Str (multiplierColor ! n), Str gold]"
    by (elim exE conjE) (rule that; assumption)
  have ts: "Number_toString (Math_round (Fin x)) = Some (digits_of (nat \<lfloor>x + 1 / 2\<rfloor>))"
    using b(2,3) by (intro toString_round) simp_all
  have fp: "format_part val mapping = Some
         (ascii ''- '' @ digits_of (nat \<lfloor>x + 1 / 2\<rfloor>) @ ascii '' '' @ [0x3A9] @ ascii '':''
          @ [10] @ ascii ''  - 4'' @ [0x2011] @ ascii ''band: ''
          @ digitColor ! a @ ascii '' - '' @ digitColor ! b @ ascii '' - ''
          @ multiplierColor ! m @ ascii '' - '' @ gold
          @ [10] @ ascii ''  - 5'' @ [0x2011] @ ascii ''band: ''
          @ digitColor ! c @ ascii '' - '' @ digitColor ! d @ ascii '' - '' @ digitColor ! e
          @ ascii '' - '' @ multiplierColor ! n @ ascii '' - '' @ gold)"
    unfolding format_part_def b(1) ts b(4,5) join4 join5 by simp
  from b(1,4,5) fp show ?thesis by blast
qed

section \<open>Invalid input\<close>

text \<open>
  C5. For every input that is not finite or not strictly positive, 0, -5, NaN and the
  infinities among them, \<^verbatim>\<open>computeResistorColorCode\<close> returns \<^verbatim>\<open>null\<close>: it
  returns, nothing is thrown on the way, and the value returned is \<^verbatim>\<open>null\<close>.
\<close>

theorem invalid_input_null:
  "(\<not> isFinite ohms \<or> js_le ohms (Fin 0) \<longrightarrow> computeResistorColorCode ohms = Some Null)
   \<and> computeResistorColorCode (Fin 0) = Some Null
   \<and> computeResistorColorCode (Fin (- 5)) = Some Null
   \<and> computeResistorColorCode NaN = Some Null
   \<and> computeResistorColorCode PosInf = Some Null
   \<and> computeResistorColorCode NegInf = Some Null"
  by (simp add: computeResistorColorCode_def)

theorem invalid_input_null_witness:
  "js_le (Fin (- 5)) (Fin 0) \<and> computeResistorColorCode (Fin (- 5)) = Some Null"
  using invalid_input_null [of "Fin (- 5)"] by simp

section \<open>Termination\<close>

text \<open>
  C9. For every finite, strictly positive input both normalisation loops return, for
  four bands and for five, and so \<^verbatim>\<open>computeResistorColorCode\<close> returns. One
  division by 10 strictly decreases a value that is at least 100, and one
  multiplication by 10 strictly increases a positive value below 100.
\<close>

theorem colorCode_total:
  assumes "is_double x" "0 < x"
  shows "(\<exists>m p m' p'. scale_down (Fin 100) (Fin x) 0 = Some (Fin m, p)
            \<and> scale_up (Fin 10) (Fin m) p = Some (Fin m', p') \<and> is_double m' \<and> 0 < m')
       \<and> (\<exists>m p m' p'. scale_down (Fin 1000) (Fin x) 0 = Some (Fin m, p)
            \<and> scale_up (Fin 100) (Fin m) p = Some (Fin m', p') \<and> is_double m' \<and> 0 < m')
       \<and> (\<exists>r. computeResistorColorCode (Fin x) = Some r)
       \<and> (100 \<le> x \<longrightarrow> (\<exists>r. js_div (Fin x) (Fin 10) = Fin r \<and> r < x))
       \<and> (x < 100 \<longrightarrow> (\<exists>r. js_mul (Fin x) (Fin 10) = Fin r \<and> x < r))"
proof (intro conjI impI)
  show "\<exists>m p m' p'. scale_down (Fin 100) (Fin x) 0 = Some (Fin m, p)
            \<and> scale_up (Fin 10) (Fin m) p = Some (Fin m', p') \<and> is_double m' \<and> 0 < m'"
    using both_loops [of 100 10 x] assms is_double_nums by simp
  show "\<exists>m p m' p'. scale_down (Fin 1000) (Fin x) 0 = Some (Fin m, p)
            \<and> scale_up (Fin 100) (Fin m) p = Some (Fin m', p') \<and> is_double m' \<and> 0 < m'"
    using both_loops [of 1000 100 x] assms is_double_nums by simp
  show "\<exists>r. computeResistorColorCode (Fin x) = Some r"
    using assms by (rule colorCode_returns)
  show "\<exists>r. js_div (Fin x) (Fin 10) = Fin r \<and> r < x" if "100 \<le> x"
    using assms(1) that by (rule div10_decreases)
  show "\<exists>r. js_mul (Fin x) (Fin 10) = Fin r \<and> x < r" if "x < 100"
    using assms that by (rule mul10_increases)
qed

theorem colorCode_total_witness:
  "is_double 47 \<and> (0::rat) < 47 \<and> (\<exists>r. computeResistorColorCode (Fin 47) = Some r)
   \<and> (\<exists>r. js_mul (Fin 47) (Fin 10) = Fin r \<and> 47 < r)"
proof -
  have d: "is_double 47" by (rule is_double_numeral) simp
  have p: "(0::rat) < 47" by simp
  from colorCode_total [OF d p] d show ?thesis by simp
qed

section \<open>The bands of 220 ohms\<close>

text \<open>
  C1, as the code has it. For the input 220 \<^verbatim>\<open>computeResistorColorCode\<close> returns the
  four bands Red, Red, Brown, Gold and the five bands Red, Red, Black, Black, Gold: the
  five-band multiplier of \<open>220 = 220 * 10 ^ 0\<close> is Black, not Brown.
\<close>

theorem colorCode_220:
  "computeResistorColorCode (Fin 220) = Some (Obj
     \<lparr>fourBand = [Str (ascii ''Red''), Str (ascii ''Red''), Str (ascii ''Brown''), Str gold],
      fiveBand = [Str (ascii ''Red''), Str (ascii ''Red''), Str (ascii ''Black''),
                  Str (ascii ''Black''), Str gold]\<rparr>)"
  by (simp add: colorCode_eval)

theorem colorCode_220_witness:
  "\<exists>r. computeResistorColorCode (Fin 220) = Some (Obj r) \<and> length (fiveBand r) = 5"
  using colorCode_220 by simp

text \<open>
  C1 as stated fails: the result for 220 does not have the five bands
  Red, Red, Black, Brown, Gold.
\<close>

theorem colorCode_220_counterexample:
  "\<not> (\<exists>r. computeResistorColorCode (Fin 220) = Some (Obj r)
      \<and> fourBand r = [Str (ascii ''Red''), Str (ascii ''Red''), Str (ascii ''Brown''), Str gold]
      \<and> fiveBand r = [Str (ascii ''Red''), Str (ascii ''Red''), Str (ascii ''Black''),
                       Str (ascii ''Brown''), Str gold])"
  by (simp add: colorCode_eval ascii_def)

section \<open>The values of the specification's list\<close>

text \<open>
  C2, as the code has it. For every value among 220, 330, 1000, 2200, 4700, 10000,
  100000 and 1000000 the result is not \<^verbatim>\<open>null\<close>, and the four bands and the five
  bands both read back as the input, exactly. For 1, 10 and 47 the result is
  \<^verbatim>\<open>null\<close>.
\<close>

theorem colorCode_decodes:
  "(\<forall>ohms \<in> {220, 330, 1000, 2200, 4700, 10000, 100000, 1000000}.
      \<exists>r. computeResistorColorCode (Fin ohms) = Some (Obj r)
        \<and> decode_bands (fourBand r) = Some ohms \<and> decode_bands (fiveBand r) = Some ohms)
   \<and> computeResistorColorCode (Fin 1) = Some Null
   \<and> computeResistorColorCode (Fin 10) = Some Null
   \<and> computeResistorColorCode (Fin 47) = Some Null"
  by (simp add: colorCode_eval decode_eval)

theorem colorCode_decodes_witness:
  "\<exists>r. computeResistorColorCode (Fin 4700) = Some (Obj r)
     \<and> decode_bands (fourBand r) = Some 4700 \<and> decode_bands (fiveBand r) = Some 4700"
  using colorCode_decodes by simp

text \<open>
  C2 as stated fails: 1, 10 and 47 are in its list, and the result for each of them is
  \<^verbatim>\<open>null\<close>.
\<close>

theorem colorCode_small_counterexample:
  "computeResistorColorCode (Fin 1) = Some Null
   \<and> computeResistorColorCode (Fin 10) = Some Null
   \<and> computeResistorColorCode (Fin 47) = Some Null"
  by (simp add: colorCode_eval)

section \<open>The range of values that have a result\<close>

text \<open>
  C3, as the code has it. For every finite, strictly positive double \<open>x\<close> the result is
  not \<^verbatim>\<open>null\<close> exactly when the exponents of both normalisations lie within 0 to 9,
  which is exactly when \<open>100 \<le> x < 10 ^ 11\<close>; this holds of the rounded arithmetic,
  not only of exact arithmetic. The result is \<^verbatim>\<open>null\<close> or has both sequences. Below
  100 the result is \<^verbatim>\<open>null\<close> and the five-band exponent is negative. From 10 up to
  100 the four-band exponent is 0 and both four-band digits pass the check; below 10
  the four-band exponent is negative as well.
\<close>

theorem colorCode_nonnull_iff:
  assumes "is_double x" "0 < x"
  shows "\<exists>m4 p4 m5 p5.
      normalize4 (Fin x) = Some (Fin m4, p4) \<and> normalize5 (Fin x) = Some (Fin m5, p5)
    \<and> ((\<exists>r. computeResistorColorCode (Fin x) = Some (Obj r))
          \<longleftrightarrow> 0 \<le> p4 \<and> p4 \<le> 9 \<and> 0 \<le> p5 \<and> p5 \<le> 9)
    \<and> ((\<exists>r. computeResistorColorCode (Fin x) = Some (Obj r)) \<longleftrightarrow> 100 \<le> x \<and> x < 10 ^ 11)
    \<and> (computeResistorColorCode (Fin x) = Some Null
          \<or> (\<exists>r. computeResistorColorCode (Fin x) = Some (Obj r)))
    \<and> (x < 100 \<longrightarrow> computeResistorColorCode (Fin x) = Some Null \<and> p5 < 0)
    \<and> (10 \<le> x \<and> x < 100 \<longrightarrow> p4 = 0
          \<and> \<not> bad_digit (Math_floor (js_div (Fin m4) (Fin 10)))
          \<and> \<not> bad_digit (Math_floor (js_mod (Fin m4) (Fin 10))))
    \<and> (x < 10 \<longrightarrow> p4 < 0)"
proof -
  from colorCode_shape [OF assms] obtain m4 p4 m5 p5 a b c d e where
    s: "normalize4 (Fin x) = Some (Fin m4, p4)" "normalize5 (Fin x) = Some (Fin m5, p5)"
       "Math_floor (js_div (Fin m4) (Fin 10)) = Fin (of_int a)"
       "Math_floor (js_mod (Fin m4) (Fin 10)) = Fin (of_int b)"
       "x < 10 \<longrightarrow> p4 < 0" "10 \<le> x \<longrightarrow> 0 \<le> p4 \<and> 1 \<le> a \<and> a \<le> 9"
       "\<forall>k. x < 10 ^ (2 + k) \<and> 2 + k \<le> 11 \<longrightarrow> p4 \<le> int k"
       "x < 100 \<longrightarrow> p5 < 0" "0 \<le> b" "b \<le> 9"
       "computeResistorColorCode (Fin x) = Some
         (if 9 < a \<or> p4 < 0 \<or> 9 < p4 \<or> p5 < 0 \<or> 9 < p5 then Null
          else Obj \<lparr>fourBand = [Str (digitColor ! nat a), Str (digitColor ! nat b),
                               Str (multiplierColor ! nat p4), Str gold],
                   fiveBand = [Str (digitColor ! nat c), Str (digitColor ! nat d),
                               Str (digitColor ! nat e), Str (multiplierColor ! nat p5),
                               Str gold]\<rparr>)"
    by (elim exE conjE) (rule that; assumption)
  have a9: "9 < a \<Longrightarrow> p4 < 0" using s(5,6) by (cases "x < 10") auto
  have 1: "(\<exists>r. computeResistorColorCode (Fin x) = Some (Obj r))
          \<longleftrightarrow> 0 \<le> p4 \<and> p4 \<le> 9 \<and> 0 \<le> p5 \<and> p5 \<le> 9"
    using a9 by (auto simp: s(11))
  have 2: "(\<exists>r. computeResistorColorCode (Fin x) = Some (Obj r)) \<longleftrightarrow> 100 \<le> x \<and> x < 10 ^ 11"
  proof
    assume "\<exists>r. computeResistorColorCode (Fin x) = Some (Obj r)"
    with out_of_range_null [OF assms] show "100 \<le> x \<and> x < 10 ^ 11" by fastforce
  next
    assume "100 \<le> x \<and> x < 10 ^ 11"
    with in_range_result [OF assms(1)] show "\<exists>r. computeResistorColorCode (Fin x) = Some (Obj r)"
      by blast
  qed
  have 3: "computeResistorColorCode (Fin x) = Some Null
          \<or> (\<exists>r. computeResistorColorCode (Fin x) = Some (Obj r))"
    by (simp add: s(11))
  have 4: "x < 100 \<longrightarrow> computeResistorColorCode (Fin x) = Some Null \<and> p5 < 0"
    using out_of_range_null [OF assms] s(8) by simp
  have 5: "10 \<le> x \<and> x < 100 \<longrightarrow> p4 = 0
          \<and> \<not> bad_digit (Math_floor (js_div (Fin m4) (Fin 10)))
          \<and> \<not> bad_digit (Math_floor (js_mod (Fin m4) (Fin 10)))"
    using s(6,9,10) s(7) [rule_format, of 0]
    by (auto simp: s(3,4) bad_digit_int simp del: js_div.simps js_mod.simps Math_floor.simps)
  from s(1,2,5) 1 2 3 4 5 show ?thesis by blast
qed

theorem colorCode_nonnull_iff_witness:
  "is_double 47 \<and> (0::rat) < 47 \<and> \<not> (\<exists>r. computeResistorColorCode (Fin 47) = Some (Obj r))"
proof -
  have d: "is_double 47" by (rule is_double_numeral) simp
  have p: "(0::rat) < 47" by simp
  from colorCode_nonnull_iff [OF d p] d show ?thesis by auto
qed

text \<open>
  C3 as stated fails at 1, which it lists among the values with a valid four-band
  representation: the four-band exponent of 1 is \<open>- 1\<close>, so the four-band check
  itself rejects it.
\<close>

theorem four_band_of_1_counterexample:
  "normalize4 (Fin 1) = Some (Fin 10, - 1) \<and> computeResistorColorCode (Fin 1) = Some Null"
  by (simp add: normalize4_def colorCode_eval)

text \<open>
  C4, as the code has it. The result is \<^verbatim>\<open>null\<close> for every finite positive double
  whose four-band or five-band exponent falls outside 0 to 9, which are the values
  below 100 and those from \<open>10 ^ 11\<close> on; in particular for the literal 0.001 and for
  \<open>10 ^ 11\<close>.
\<close>

theorem colorCode_out_of_range:
  "(is_double x \<and> 0 < x \<longrightarrow>
      (\<exists>m4 p4 m5 p5. normalize4 (Fin x) = Some (Fin m4, p4)
         \<and> normalize5 (Fin x) = Some (Fin m5, p5)
         \<and> (p4 < 0 \<or> 9 < p4 \<or> p5 < 0 \<or> 9 < p5
               \<longrightarrow> computeResistorColorCode (Fin x) = Some Null)))
   \<and> (is_double x \<and> 0 < x \<and> (x < 100 \<or> 10 ^ 11 \<le> x)
      \<longrightarrow> computeResistorColorCode (Fin x) = Some Null)
   \<and> computeResistorColorCode (round64 (1 / 1000)) = Some Null
   \<and> computeResistorColorCode (Fin (10 ^ 11)) = Some Null"
proof (intro conjI impI)
  show "\<exists>m4 p4 m5 p5. normalize4 (Fin x) = Some (Fin m4, p4)
         \<and> normalize5 (Fin x) = Some (Fin m5, p5)
         \<and> (p4 < 0 \<or> 9 < p4 \<or> p5 < 0 \<or> 9 < p5
               \<longrightarrow> computeResistorColorCode (Fin x) = Some Null)"
    if "is_double x \<and> 0 < x"
  proof -
    from that have dx: "is_double x" and x0: "0 < x" by simp_all
    from colorCode_shape [OF dx x0] obtain m4 p4 m5 p5 a b c d e where
      s: "normalize4 (Fin x) = Some (Fin m4, p4)" "normalize5 (Fin x) = Some (Fin m5, p5)"
         "computeResistorColorCode (Fin x) = Some
           (if 9 < a \<or> p4 < 0 \<or> 9 < p4 \<or> p5 < 0 \<or> 9 < p5 then Null
            else Obj \<lparr>fourBand = [Str (digitColor ! nat a), Str (digitColor ! nat b),
                               Str (multiplierColor ! nat p4), Str gold],
                   fiveBand = [Str (digitColor ! nat c), Str (digitColor ! nat d),
                               Str (digitColor ! nat e), Str (multiplierColor ! nat p5),
                               Str gold]\<rparr>)"
      by (elim exE conjE) (rule that; assumption)
    have "p4 < 0 \<or> 9 < p4 \<or> p5 < 0 \<or> 9 < p5
        \<longrightarrow> computeResistorColorCode (Fin x) = Some Null"
      by (auto simp: s(3))
    with s(1,2) show ?thesis by blast
  qed
  show "computeResistorColorCode (Fin x) = Some Null"
    if "is_double x \<and> 0 < x \<and> (x < 100 \<or> 10 ^ 11 \<le> x)"
    using that out_of_range_null [of x] by blast
  have "dyadic53 (of_int 1 * 2 powi (- 10))" by (rule dyadic53I_le) (simp_all add: emin_def)
  then have a: "dyadic53 (1 / 1024)" by (simp add: power_int_minus field_simps)
  have "1 / 1024 \<le> round_mag (1 / 1000)" using a by (rule round_mag_ge) simp_all
  moreover have "round_mag (1 / 1000) \<le> 1"
    using dyadic53_of_int [of 1] by (intro round_mag_le) simp_all
  moreover have "round_mag (1 / 1000) < huge"
    using \<open>round_mag (1 / 1000) \<le> 1\<close> pow53_le_huge by simp
  ultimately have "round64 (1 / 1000) = Fin (round_mag (1 / 1000))"
    "is_double (round_mag (1 / 1000))" "0 < round_mag (1 / 1000)" "round_mag (1 / 1000) < 100"
    by (simp_all add: round64_Fin is_double_round_mag)
  then show "computeResistorColorCode (round64 (1 / 1000)) = Some Null"
    using out_of_range_null [of "round_mag (1 / 1000)"] by simp
  show "computeResistorColorCode (Fin (10 ^ 11)) = Some Null"
    using out_of_range_null [of "10 ^ 11"] is_double_pow10 [of 11] by simp
qed

theorem colorCode_out_of_range_witness:
  "is_double 47 \<and> (0::rat) < 47 \<and> computeResistorColorCode (Fin 47) = Some Null"
proof -
  have d: "is_double 47" by (rule is_double_numeral) simp
  from colorCode_out_of_range [of 47] d show ?thesis by simp
qed

text \<open>
  C4 as stated fails at \<open>10 ^ 10\<close>: its four-band exponent is 9 and its five-band
  exponent 8, and the result is Brown, Black, White, Gold and
  Brown, Black, Black, Grey, Gold.
\<close>

theorem colorCode_1e10_counterexample:
  "computeResistorColorCode (Fin (10 ^ 10)) = Some (Obj
     \<lparr>fourBand = [Str (ascii ''Brown''), Str (ascii ''Black''), Str (ascii ''White''), Str gold],
      fiveBand = [Str (ascii ''Brown''), Str (ascii ''Black''), Str (ascii ''Black''),
                  Str (ascii ''Grey''), Str gold]\<rparr>)"
  by (simp add: colorCode_eval)

section \<open>The shape of a result\<close>

text \<open>
  C7. Whenever the result is not \<^verbatim>\<open>null\<close>, the four-band sequence has exactly 4
  entries and the five-band sequence exactly 5; every digit entry and every multiplier
  entry is read from the table at an index within 0 to 9, so it is one of the ten colour
  names, and the last entry of each sequence is the tolerance string.
\<close>

theorem bands_well_formed:
  assumes "valid ohms" "computeResistorColorCode ohms = Some (Obj r)"
  shows "length (fourBand r) = 4 \<and> length (fiveBand r) = 5
    \<and> (\<exists>a b m c d e n. a < 10 \<and> b < 10 \<and> m < 10 \<and> c < 10 \<and> d < 10 \<and> e < 10 \<and> n < 10
        \<and> fourBand r = [Str (digitColor ! a), Str (digitColor ! b),
                         Str (multiplierColor ! m), Str gold]
        \<and> fiveBand r = [Str (digitColor ! c), Str (digitColor ! d), Str (digitColor ! e),
                         Str (multiplierColor ! n), Str gold])
    \<and> (\<forall>v \<in> set (butlast (fourBand r)) \<union> set (butlast (fiveBand r)).
          \<exists>name \<in> set [''Black'', ''Brown'', ''Red'', ''Orange'', ''Yellow'',
                         ''Green'', ''Blue'', ''Violet'', ''Grey'', ''White'']. v = Str (ascii name))
    \<and> last (fourBand r) = Str gold \<and> last (fiveBand r) = Str gold"
proof -
  from result_bands [OF assms] obtain a b m c d e n where
    idx: "a < 10" "b < 10" "m < 10" "c < 10" "d < 10" "e < 10" "n < 10"
    and four: "fourBand r = [Str (digitColor ! a), Str (digitColor ! b),
                         Str (multiplierColor ! m), Str gold]"
    and five: "fiveBand r = [Str (digitColor ! c), Str (digitColor ! d), Str (digitColor ! e),
                         Str (multiplierColor ! n), Str gold]"
    by (elim exE conjE) (rule that; assumption)
  have mult: "multiplierColor = digitColor" by (simp add: multiplierColor_def digitColor_def)
  have 1: "length (fourBand r) = 4 \<and> length (fiveBand r) = 5" by (simp add: four five)
  have "a < 10 \<and> b < 10 \<and> m < 10 \<and> c < 10 \<and> d < 10 \<and> e < 10 \<and> n < 10
        \<and> fourBand r = [Str (digitColor ! a), Str (digitColor ! b),
                         Str (multiplierColor ! m), Str gold]
        \<and> fiveBand r = [Str (digitColor ! c), Str (digitColor ! d), Str (digitColor ! e),
                         Str (multiplierColor ! n), Str gold]"
    using idx four five by simp
  then have 2: "\<exists>a b m c d e n. a < 10 \<and> b < 10 \<and> m < 10 \<and> c < 10 \<and> d < 10 \<and> e < 10 \<and> n < 10
        \<and> fourBand r = [Str (digitColor ! a), Str (digitColor ! b),
                         Str (multiplierColor ! m), Str gold]
        \<and> fiveBand r = [Str (digitColor ! c), Str (digitColor ! d), Str (digitColor ! e),
                         Str (multiplierColor ! n), Str gold]"
    by - (rule exI)+
  have 3: "\<forall>v \<in> set (butlast (fourBand r)) \<union> set (butlast (fiveBand r)).
          \<exists>name \<in> set [''Black'', ''Brown'', ''Red'', ''Orange'', ''Yellow'',
                         ''Green'', ''Blue'', ''Violet'', ''Grey'', ''White'']. v = Str (ascii name)"
  proof
    fix v assume "v \<in> set (butlast (fourBand r)) \<union> set (butlast (fiveBand r))"
    then obtain k where k: "k < 10" "v = Str (digitColor ! k)"
      using idx unfolding four five mult by auto
    from digitColor_name [OF k(1)] k(2)
    show "\<exists>name \<in> set [''Black'', ''Brown'', ''Red'', ''Orange'', ''Yellow'',
        ''Green'', ''Blue'', ''Violet'', ''Grey'', ''White'']. v = Str (ascii name)"
      by simp
  qed
  have 4: "last (fourBand r) = Str gold \<and> last (fiveBand r) = Str gold" by (simp add: four five)
  from 1 2 3 4 show ?thesis by blast
qed

theorem bands_well_formed_witness:
  "valid (Fin 220) \<and> (\<exists>r. computeResistorColorCode (Fin 220) = Some (Obj r)
     \<and> length (fourBand r) = 4 \<and> length (fiveBand r) = 5 \<and> last (fiveBand r) = Str gold)"
proof -
  have v: "valid (Fin 220)" by (simp add: is_double_numeral)
  obtain r where r: "computeResistorColorCode (Fin 220) = Some (Obj r)"
    by (simp add: colorCode_eval)
  from bands_well_formed [OF v r] v r show ?thesis by blast
qed

section \<open>The printed item\<close>

text \<open>
  C8, as the code has it. For every list of candidates that are doubles, and so for the
  values read from any question, the loop of the handler returns: it writes one item
  for each candidate whose result is not \<^verbatim>\<open>null\<close>, in the order of the candidates,
  and nothing for the others. The
  item of a candidate has three lines: a hyphen, the rounded value and the sign U+03A9
  with a colon; indented, \<^verbatim>\<open>- 4-band:\<close> and the four colours joined by \<^verbatim>\<open>" - "\<close>;
  indented, \<^verbatim>\<open>- 5-band:\<close> and the five colours joined by \<^verbatim>\<open>" - "\<close>; the hyphen of
  \<^verbatim>\<open>4-band\<close> and \<^verbatim>\<open>5-band\<close> is U+2011.
\<close>

theorem handler_format:
  assumes "vals = extractOhmValues question \<or> (\<forall>val \<in> set vals. valid val)"
  shows "\<exists>parts. color_parts vals = Some parts
    \<and> list_all2
        (\<lambda>val part. \<exists>x mapping c1 c2 c3 c4 d1 d2 d3 d4 d5.
            val = Fin x
          \<and> computeResistorColorCode val = Some (Obj mapping)
          \<and> fourBand mapping = [Str c1, Str c2, Str c3, Str c4]
          \<and> fiveBand mapping = [Str d1, Str d2, Str d3, Str d4, Str d5]
          \<and> format_part val mapping = Some part
          \<and> part = ascii ''- '' @ digits_of (nat \<lfloor>x + 1 / 2\<rfloor>) @ ascii '' '' @ [0x3A9]
              @ ascii '':''
              @ [10] @ ascii ''  - 4'' @ [0x2011] @ ascii ''band: ''
              @ c1 @ ascii '' - '' @ c2 @ ascii '' - '' @ c3 @ ascii '' - '' @ c4
              @ [10] @ ascii ''  - 5'' @ [0x2011] @ ascii ''band: ''
              @ d1 @ ascii '' - '' @ d2 @ ascii '' - '' @ d3 @ ascii '' - '' @ d4
              @ ascii '' - '' @ d5)
        (filter (\<lambda>val. \<exists>mapping. computeResistorColorCode val = Some (Obj mapping)) vals)
        parts"
proof -
  define item where "item = (\<lambda>val part. \<exists>x mapping c1 c2 c3 c4 d1 d2 d3 d4 d5.
            val = Fin x
          \<and> computeResistorColorCode val = Some (Obj mapping)
          \<and> fourBand mapping = [Str c1, Str c2, Str c3, Str c4]
          \<and> fiveBand mapping = [Str d1, Str d2, Str d3, Str d4, Str d5]
          \<and> format_part val mapping = Some part
          \<and> part = ascii ''- '' @ digits_of (nat \<lfloor>x + 1 / 2\<rfloor>) @ ascii '' '' @ [0x3A9]
              @ ascii '':''
              @ [10] @ ascii ''  - 4'' @ [0x2011] @ ascii ''band: ''
              @ c1 @ ascii '' - '' @ c2 @ ascii '' - '' @ c3 @ ascii '' - '' @ c4
              @ [10] @ ascii ''  - 5'' @ [0x2011] @ ascii ''band: ''
              @ d1 @ ascii '' - '' @ d2 @ ascii '' - '' @ d3 @ ascii '' - '' @ d4
              @ ascii '' - '' @ d5)"
  define has_code where
    "has_code = (\<lambda>val. \<exists>mapping. computeResistorColorCode val = Some (Obj mapping))"
  have main: "\<exists>parts. color_parts vs = Some parts \<and> list_all2 item (filter has_code vs) parts"
    if "\<forall>val \<in> set vs. valid val" for vs
    using that
  proof (induction vs)
    case Nil
    show ?case by simp
  next
    case (Cons val vs)
    from Cons obtain parts where p: "color_parts vs = Some parts"
      "list_all2 item (filter has_code vs) parts"
      by auto
    from Cons(2) have v: "valid val" by simp
    from colorCode_valid_returns [OF v] obtain r where r: "computeResistorColorCode val = Some r"
      by blast
    show ?case
    proof (cases r)
      case Null
      with r p show ?thesis by (simp add: has_code_def)
    next
      case (Obj mapping)
      with r have m: "computeResistorColorCode val = Some (Obj mapping)" by simp
      from item_of_result [OF v m] obtain part where
        f: "format_part val mapping = Some part" and i: "item val part"
        unfolding item_def using m by blast
      from m have h: "has_code val" by (simp add: has_code_def)
      from m f p i h show ?thesis by simp
    qed
  qed
  from assms extract_valid have "\<forall>val \<in> set vals. valid val" by blast
  from main [OF this] show ?thesis unfolding item_def has_code_def .
qed

theorem handler_format_witness:
  "valid (Fin 47) \<and> valid (Fin 220) \<and> valid (Fin 4700)
   \<and> color_parts [Fin 47, Fin 220, Fin 4700] = Some
       [ascii ''- 220 '' @ [0x3A9] @ ascii '':'' @ [10]
          @ ascii ''  - 4'' @ [0x2011] @ ascii ''band: Red - Red - Brown - Gold ('' @ [0xB1]
          @ ascii ''5%)'' @ [10]
          @ ascii ''  - 5'' @ [0x2011] @ ascii ''band: Red - Red - Black - Black - Gold (''
          @ [0xB1] @ ascii ''5%)'',
        ascii ''- 4700 '' @ [0x3A9] @ ascii '':'' @ [10]
          @ ascii ''  - 4'' @ [0x2011] @ ascii ''band: Yellow - Violet - Red - Gold ('' @ [0xB1]
          @ ascii ''5%)'' @ [10]
          @ ascii ''  - 5'' @ [0x2011] @ ascii ''band: Yellow - Violet - Black - Brown - Gold (''
          @ [0xB1] @ ascii ''5%)'']"
proof -
  have v: "valid (Fin 47)" "valid (Fin 220)" "valid (Fin 4700)"
    by (simp_all add: is_double_numeral)
  have c: "computeResistorColorCode (Fin 47) = Some Null"
    "computeResistorColorCode (Fin 220) = Some (Obj
      \<lparr>fourBand = [Str (ascii ''Red''), Str (ascii ''Red''), Str (ascii ''Brown''), Str gold],
       fiveBand = [Str (ascii ''Red''), Str (ascii ''Red''), Str (ascii ''Black''),
                   Str (ascii ''Black''), Str gold]\<rparr>)"
    "computeResistorColorCode (Fin 4700) = Some (Obj
      \<lparr>fourBand = [Str (ascii ''Yellow''), Str (ascii ''Violet''), Str (ascii ''Red''), Str gold],
       fiveBand = [Str (ascii ''Yellow''), Str (ascii ''Violet''), Str (ascii ''Black''),
                   Str (ascii ''Brown''), Str gold]\<rparr>)"
    by (simp_all add: colorCode_eval)
  have f: "format_part (Fin 220)
      \<lparr>fourBand = [Str (ascii ''Red''), Str (ascii ''Red''), Str (ascii ''Brown''), Str gold],
       fiveBand = [Str (ascii ''Red''), Str (ascii ''Red''), Str (ascii ''Black''),
                   Str (ascii ''Black''), Str gold]\<rparr>
     = Some (ascii ''- 220 '' @ [0x3A9] @ ascii '':'' @ [10]
          @ ascii ''  - 4'' @ [0x2011] @ ascii ''band: Red - Red - Brown - Gold ('' @ [0xB1]
          @ ascii ''5%)'' @ [10]
          @ ascii ''  - 5'' @ [0x2011] @ ascii ''band: Red - Red - Black - Black - Gold (''
          @ [0xB1] @ ascii ''5%)'')"
    "format_part (Fin 4700)
      \<lparr>fourBand = [Str (ascii ''Yellow''), Str (ascii ''Violet''), Str (ascii ''Red''), Str gold],
       fiveBand = [Str (ascii ''Yellow''), Str (ascii ''Violet''), Str (ascii ''Black''),
                   Str (ascii ''Brown''), Str gold]\<rparr>
     = Some (ascii ''- 4700 '' @ [0x3A9] @ ascii '':'' @ [10]
          @ ascii ''  - 4'' @ [0x2011] @ ascii ''band: Yellow - Violet - Red - Gold ('' @ [0xB1]
          @ ascii ''5%)'' @ [10]
          @ ascii ''  - 5'' @ [0x2011] @ ascii ''band: Yellow - Violet - Black - Brown - Gold (''
          @ [0xB1] @ ascii ''5%)'')"
    by (simp_all add: format_part_def Number_toString_def digits_of.simps ascii_def gold_def)
  from v have "\<forall>val \<in> set [Fin 47, Fin 220, Fin 4700]. valid val" by simp
  then have "[Fin 47, Fin 220, Fin 4700] = extractOhmValues []
      \<or> (\<forall>val \<in> set [Fin 47, Fin 220, Fin 4700]. valid val)" ..
  from handler_format [OF this] obtain parts where
    p: "color_parts [Fin 47, Fin 220, Fin 4700] = Some parts"
    and l: "list_all2
        (\<lambda>val part. \<exists>mapping. computeResistorColorCode val = Some (Obj mapping)
            \<and> format_part val mapping = Some part)
        (filter (\<lambda>val. \<exists>mapping. computeResistorColorCode val = Some (Obj mapping))
           [Fin 47, Fin 220, Fin 4700])
        parts"
    by (elim exE conjE) (rule that, assumption, erule list_all2_mono, blast)
  from l have "parts =
       [ascii ''- 220 '' @ [0x3A9] @ ascii '':'' @ [10]
          @ ascii ''  - 4'' @ [0x2011] @ ascii ''band: Red - Red - Brown - Gold ('' @ [0xB1]
          @ ascii ''5%)'' @ [10]
          @ ascii ''  - 5'' @ [0x2011] @ ascii ''band: Red - Red - Black - Black - Gold (''
          @ [0xB1] @ ascii ''5%)'',
        ascii ''- 4700 '' @ [0x3A9] @ ascii '':'' @ [10]
          @ ascii ''  - 4'' @ [0x2011] @ ascii ''band: Yellow - Violet - Red - Gold ('' @ [0xB1]
          @ ascii ''5%)'' @ [10]
          @ ascii ''  - 5'' @ [0x2011] @ ascii ''band: Yellow - Violet - Black - Brown - Gold (''
          @ [0xB1] @ ascii ''5%)'']"
    by (simp add: c list_all2_Cons1 f)
  with p v show ?thesis by simp
qed

text \<open>
  C8 as stated fails: the item written for 220 has three lines, a leading hyphen and
  the hyphens U+2011; it is not the single line of the specification.
\<close>

theorem handler_format_counterexample:
  "format_part (Fin 220)
     \<lparr>fourBand = [Str (ascii ''Red''), Str (ascii ''Red''), Str (ascii ''Brown''), Str gold],
      fiveBand = [Str (ascii ''Red''), Str (ascii ''Red''), Str (ascii ''Black''),
                  Str (ascii ''Black''), Str gold]\<rparr>
   = Some (ascii ''- 220 '' @ [0x3A9] @ ascii '':'' @ [10]
       @ ascii ''  - 4'' @ [0x2011] @ ascii ''band: Red - Red - Brown - Gold ('' @ [0xB1] @ ascii ''5%)''
       @ [10]
       @ ascii ''  - 5'' @ [0x2011] @ ascii ''band: Red - Red - Black - Black - Gold (''
       @ [0xB1] @ ascii ''5%)'')
   \<and> format_part (Fin 220)
     \<lparr>fourBand = [Str (ascii ''Red''), Str (ascii ''Red''), Str (ascii ''Brown''), Str gold],
      fiveBand = [Str (ascii ''Red''), Str (ascii ''Red''), Str (ascii ''Black''),
                  Str (ascii ''Black''), Str gold]\<rparr>
   \<noteq> Some (spec_line (ascii ''220'')
     \<lparr>fourBand = [Str (ascii ''Red''), Str (ascii ''Red''), Str (ascii ''Brown''), Str gold],
      fiveBand = [Str (ascii ''Red''), Str (ascii ''Red''), Str (ascii ''Black''),
                  Str (ascii ''Black''), Str gold]\<rparr>)"
  by (simp add: format_part_def Number_toString_def digits_of.simps spec_line_def ascii_def
      gold_def)

section \<open>The values read from a question\<close>

text \<open>
  C6. For every input string \<^verbatim>\<open>extractOhmValues\<close> returns what the specification
  describes: each matched numeric token that parses to a finite number, scaled by its
  suffix (k and K by \<open>10 ^ 3\<close>, M and mega by \<open>10 ^ 6\<close>, G and g by \<open>10 ^ 9\<close>, none
  by 1), equal values suppressed after their first appearance, the order kept. It maps
  \<^verbatim>\<open>"resistor of 4.7k and 220 ohm"\<close> to \<open>[4700, 220]\<close> and \<^verbatim>\<open>"220 220 ohm"\<close> to
  \<open>[220]\<close>.
\<close>

theorem extractOhmValues_spec:
  "extractOhmValues txt = spec_extractOhmValues txt
   \<and> extractOhmValues (ascii ''resistor of 4.7k and 220 ohm'') = [Fin 4700, Fin 220]
   \<and> extractOhmValues (ascii ''220 220 ohm'') = [Fin 220]"
proof (intro conjI)
  show "extractOhmValues txt = spec_extractOhmValues txt" by (rule extract_eq_spec)
  show "extractOhmValues (ascii ''resistor of 4.7k and 220 ohm'') = [Fin 4700, Fin 220]"
    by (simp add: extract_eval)
  show "extractOhmValues (ascii ''220 220 ohm'') = [Fin 220]"
    by (simp add: extract_eval)
qed

theorem extractOhmValues_spec_witness:
  "spec_extractOhmValues (ascii ''220 220 ohm'') = [Fin 220]"
proof -
  have "extractOhmValues (ascii ''220 220 ohm'') = spec_extractOhmValues (ascii ''220 220 ohm'')"
    "extractOhmValues (ascii ''220 220 ohm'') = [Fin 220]"
    using extractOhmValues_spec [of "ascii ''220 220 ohm''"] by blast+
  then show ?thesis by simp
qed

text \<open>
  C10. Every number \<^verbatim>\<open>extractOhmValues\<close> returns is non-negative (an overflowing
  product is \<open>+\<infinity>\<close>), and the text \<^verbatim>\<open>"-5"\<close> contributes its unsigned part 5.
\<close>

theorem extractOhmValues_nonneg:
  "(\<forall>v \<in> set (extractOhmValues txt). js_ge v (Fin 0))
   \<and> extractOhmValues (ascii ''-5'') = [Fin 5]"
proof
  show "\<forall>v \<in> set (extractOhmValues txt). js_ge v (Fin 0)" using extract_nonneg by blast
  show "extractOhmValues (ascii ''-5'') = [Fin 5]" by (simp add: extract_eval)
qed

theorem extractOhmValues_nonneg_witness:
  "extractOhmValues (ascii ''-5'') = [Fin 5] \<and> js_ge (Fin 5) (Fin 0)"
  using extractOhmValues_nonneg [of "ascii ''-5''"] by simp


end
